theory Spec2Isabelle
  imports
    Main
    "HOL-Library.Sublist"
    "HOL-Library.List_Lexorder"
    "HOL-Library.Char_ord"
    "HOL-Library.Product_Lexorder"
begin

section \<open>Symbol navigator of openhands-aci: data model\<close>

text \<open>
  The development embeds \<^verbatim>\<open>openhands_aci/editor/navigator.py\<close> (class
  \<^verbatim>\<open>SymbolNavigator\<close>). Python strings are character lists, one \<^typ>\<open>char\<close> per
  character; Python integers are \<^typ>\<open>int\<close>. A Python \<^verbatim>\<open>set\<close> is a list without
  duplicates (membership is all the code observes before the tags are sorted), a
  \<^verbatim>\<open>dict\<close> is a map, and \<^verbatim>\<open>defaultdict\<close> reads a missing key as its default.
\<close>

datatype TagKind = DEF | REF

record ParsedTag =
  abs_path :: string
  rel_path :: string
  node_content :: string
  tag_kind :: TagKind
  start_line :: int
  end_line :: int

text \<open>An exception raised by a collaborator, carried as a value.\<close>

datatype error = Raised string

text \<open>
  The collaborators the navigator calls and whose code is outside the module: the
  tracked-file listing (\<^verbatim>\<open>GitRepoUtils\<close>), the path helper (\<^verbatim>\<open>PathUtils\<close>), the
  tag extractor (\<^verbatim>\<open>TreeSitterParser\<close>), the two file helpers and the excerpt
  renderer (\<^verbatim>\<open>grep_ast.TreeContext\<close>). They are parameters of the model. The listing
  and the extractor may raise. A context handle of type \<^typ>\<open>'c\<close> is a mutable object:
  \<open>format_lois\<close> stands for the four statements that reset the lines of interest, add
  the given ones, add the context and format, and it returns the mutated handle with the
  text. Modification times are values of an ordered type \<^typ>\<open>'m\<close>.
\<close>

record ('c, 'm) env =
  get_all_absolute_tracked_files :: "int option \<Rightarrow> error + string list"
  get_absolute_tracked_files_in_directory :: "string \<Rightarrow> int option \<Rightarrow> error + string list"
  get_relative_path_str :: "string \<Rightarrow> string"
  get_tags_from_file :: "string \<Rightarrow> string \<Rightarrow> error + ParsedTag list"
  get_modified_time :: "string \<Rightarrow> 'm"
  read_text :: "string \<Rightarrow> string option"
  TreeContext :: "string \<Rightarrow> string \<Rightarrow> 'c"
  format_lois :: "'c \<Rightarrow> int list \<Rightarrow> 'c \<times> string"

text \<open>
  The navigator's own state: the two caches of \<^verbatim>\<open>__init__\<close>. \<open>read_log\<close> records
  every call of \<^verbatim>\<open>read_text\<close> made by \<^verbatim>\<open>render_tree\<close>, in order (the read count
  a test would instrument); nothing in the model reads it.
\<close>

record ('c, 'm) navigator =
  file_context_cache :: "string \<rightharpoonup> ('c \<times> 'm)"
  rendered_tree_cache :: "(string \<times> int list \<times> 'm) \<rightharpoonup> string"
  read_log :: "string list"

definition new_navigator :: "('c, 'm) navigator" where
  "new_navigator = \<lparr>file_context_cache = Map.empty, rendered_tree_cache = Map.empty, read_log = []\<rparr>"

type_synonym tag_index =
  "(string \<rightharpoonup> string list) \<times> (string \<rightharpoonup> string list) \<times>
   (string \<times> string \<rightharpoonup> ParsedTag list) \<times> (string \<times> string \<rightharpoonup> ParsedTag list)"

section \<open>Index construction: \<^verbatim>\<open>get_parsed_tags\<close>\<close>

definition dict_get :: "('k \<rightharpoonup> 'v list) \<Rightarrow> 'k \<Rightarrow> 'v list" where
  "dict_get d k = (case d k of None \<Rightarrow> [] | Some v \<Rightarrow> v)"

definition set_add :: "'a \<Rightarrow> 'a list \<Rightarrow> 'a list" where
  "set_add x s = (if x \<in> set s then s else s @ [x])"

definition set_update :: "'a list \<Rightarrow> 'a list \<Rightarrow> 'a list" where
  "set_update s xs = foldl (\<lambda>acc x. set_add x acc) s xs"

text \<open>Projections to the four dictionaries of an index.\<close>

definition ident2defrels_of :: "tag_index \<Rightarrow> (string \<rightharpoonup> string list)" where
  "ident2defrels_of idx = fst idx"

definition ident2refrels_of :: "tag_index \<Rightarrow> (string \<rightharpoonup> string list)" where
  "ident2refrels_of idx = fst (snd idx)"

definition identwrel2deftags_of :: "tag_index \<Rightarrow> (string \<times> string \<rightharpoonup> ParsedTag list)" where
  "identwrel2deftags_of idx = fst (snd (snd idx))"

definition identwrel2reftags_of :: "tag_index \<Rightarrow> (string \<times> string \<rightharpoonup> ParsedTag list)" where
  "identwrel2reftags_of idx = snd (snd (snd idx))"

definition empty_index :: tag_index where
  "empty_index = (Map.empty, Map.empty, Map.empty, Map.empty)"

text \<open>The body of the inner loop: one parsed tag folded into the four dictionaries.\<close>

definition add_parsed_tag :: "string \<Rightarrow> tag_index \<Rightarrow> ParsedTag \<Rightarrow> tag_index" where
  "add_parsed_tag rel_file idx parsed_tag =
     (case idx of (ident2defrels, ident2refrels, identwrel2deftags, identwrel2reftags) \<Rightarrow>
        let ident = node_content parsed_tag;
            (ident2defrels1, identwrel2deftags1) =
              (if tag_kind parsed_tag = DEF
               then (ident2defrels(ident \<mapsto> set_add rel_file (dict_get ident2defrels ident)),
                     identwrel2deftags((rel_file, ident) \<mapsto>
                       set_add parsed_tag (dict_get identwrel2deftags (rel_file, ident))))
               else (ident2defrels, identwrel2deftags));
            (ident2refrels1, identwrel2reftags1) =
              (if tag_kind parsed_tag = REF
               then (ident2refrels(ident \<mapsto> dict_get ident2refrels ident @ [rel_file]),
                     identwrel2reftags((rel_file, ident) \<mapsto>
                       set_add parsed_tag (dict_get identwrel2reftags (rel_file, ident))))
               else (ident2refrels, identwrel2reftags))
        in (ident2defrels1, ident2refrels1, identwrel2deftags1, identwrel2reftags1))"

text \<open>
  The outer loop over the tracked files. The source has no handler around the extractor
  call, so an exception raised there leaves the loop and the function.
\<close>

fun scan_files :: "('c, 'm) env \<Rightarrow> string list \<Rightarrow> tag_index \<Rightarrow> error + tag_index" where
  "scan_files E [] idx = Inr idx"
| "scan_files E (abs_file # rest) idx =
     (let rel_file = get_relative_path_str E abs_file in
      case get_tags_from_file E abs_file rel_file of
        Inl e \<Rightarrow> Inl e
      | Inr parsed_tags \<Rightarrow> scan_files E rest (foldl (add_parsed_tag rel_file) idx parsed_tags))"

text \<open>
  \<^verbatim>\<open>if rel_dir_path:\<close> is false for \<^verbatim>\<open>None\<close> and for the empty string. The progress
  bar of \<^verbatim>\<open>show_progress\<close> wraps the same iteration and is left out.
\<close>

definition get_parsed_tags ::
  "('c, 'm) env \<Rightarrow> int option \<Rightarrow> string option \<Rightarrow> error + tag_index" where
  "get_parsed_tags E depth rel_dir_path =
     (case (case rel_dir_path of
              Some d \<Rightarrow> (if d \<noteq> [] then get_absolute_tracked_files_in_directory E d depth
                         else get_all_absolute_tracked_files E depth)
            | None \<Rightarrow> get_all_absolute_tracked_files E depth) of
        Inl e \<Rightarrow> Inl e
      | Inr all_abs_files \<Rightarrow> scan_files E all_abs_files empty_index)"

text \<open>
  The tags the extractor yields for a tracked file, as a set; none when it raises. The
  statements about the index are phrased with it.
\<close>

definition file_tags :: "('c, 'm) env \<Rightarrow> string \<Rightarrow> ParsedTag set" where
  "file_tags E f = (case get_tags_from_file E f (get_relative_path_str E f) of
                      Inl e \<Rightarrow> {} | Inr ts \<Rightarrow> set ts)"

section \<open>Rendering with the two caches: \<^verbatim>\<open>render_tree\<close>\<close>

abbreviation NL :: char where "NL \<equiv> CHR 0x0A"

definition ensure_newline :: "string \<Rightarrow> string" where
  "ensure_newline code = (if code \<noteq> [] \<and> last code = NL then code else code @ [NL])"

definition render_tree ::
  "('c, 'm::linorder) env \<Rightarrow> ('c, 'm) navigator \<Rightarrow> string \<Rightarrow> string \<Rightarrow> int list
     \<Rightarrow> string \<times> ('c, 'm) navigator" where
  "render_tree E nav abs_file rel_file los =
     (let mtime = get_modified_time E abs_file;
          tree_cache_key = (rel_file, sort los, mtime)
      in case rendered_tree_cache nav tree_cache_key of
           Some res \<Rightarrow> (res, nav)
         | None \<Rightarrow>
             let reload = (case file_context_cache nav rel_file of
                             None \<Rightarrow> True
                           | Some (c, m) \<Rightarrow> m < mtime);
                 code = ensure_newline (case read_text E abs_file of None \<Rightarrow> [] | Some s \<Rightarrow> s);
                 (context, ctime, nav1) =
                   (if reload
                    then (TreeContext E rel_file code, mtime,
                          nav\<lparr>read_log := read_log nav @ [abs_file]\<rparr>)
                    else (fst (the (file_context_cache nav rel_file)),
                          snd (the (file_context_cache nav rel_file)), nav));
                 (context1, res) = format_lois E context los
             in (res, nav1\<lparr>file_context_cache := (file_context_cache nav1)(rel_file \<mapsto> (context1, ctime)),
                           rendered_tree_cache := (rendered_tree_cache nav1)(tree_cache_key \<mapsto> res)\<rparr>))"

section \<open>Grouping tags by file: \<^verbatim>\<open>tag_list_to_tree\<close>\<close>

definition dummy_tag :: ParsedTag where
  "dummy_tag = \<lparr>abs_path = [], rel_path = [], node_content = [], tag_kind = DEF,
                start_line = 0, end_line = 0\<rparr>"

text \<open>\<^verbatim>\<open>list(range(tag.start_line, tag.end_line + 1)) if use_end_line else [tag.start_line]\<close>\<close>

definition tag_lois :: "bool \<Rightarrow> ParsedTag \<Rightarrow> int list" where
  "tag_lois use_end_line tag =
     (if use_end_line then [start_line tag .. end_line tag] else [start_line tag])"

text \<open>
  The \<^verbatim>\<open>for\<close> loop, with its four local variables and the navigator as arguments.
\<close>

fun tag_loop ::
  "('c, 'm::linorder) env \<Rightarrow> bool \<Rightarrow> ParsedTag list \<Rightarrow> string \<Rightarrow> string \<Rightarrow> int list \<Rightarrow> string
     \<Rightarrow> ('c, 'm) navigator \<Rightarrow> string \<times> ('c, 'm) navigator" where
  "tag_loop E use_end_line [] cur_rel_file cur_abs_file los out nav = (out, nav)"
| "tag_loop E use_end_line (tag # tags) cur_rel_file cur_abs_file los out nav =
     (if rel_path tag \<noteq> cur_rel_file then
        (if los \<noteq> [] then
           (case render_tree E nav cur_abs_file cur_rel_file los of (res, nav1) \<Rightarrow>
              tag_loop E use_end_line tags (rel_path tag) (abs_path tag)
                (tag_lois use_end_line tag) (out @ cur_rel_file @ '':'' @ [NL] @ res) nav1)
         else if cur_rel_file \<noteq> [] then
           tag_loop E use_end_line tags (rel_path tag) (abs_path tag)
             (los @ tag_lois use_end_line tag) (out @ [NL] @ cur_rel_file @ '':'' @ [NL]) nav
         else
           tag_loop E use_end_line tags (rel_path tag) (abs_path tag)
             (los @ tag_lois use_end_line tag) out nav)
      else
        tag_loop E use_end_line tags cur_rel_file cur_abs_file
          (los @ tag_lois use_end_line tag) out nav)"

text \<open>
  \<^verbatim>\<open>str.splitlines\<close>: the line boundaries among the characters of the model are
  LF, VT, FF, CR, FS, GS, RS and NEL, and CR LF counts as one boundary. A final boundary
  opens no further line.
\<close>

definition is_linebreak :: "char \<Rightarrow> bool" where
  "is_linebreak c \<longleftrightarrow>
     c = CHR 0x0A \<or> c = CHR 0x0B \<or> c = CHR 0x0C \<or> c = CHR 0x0D \<or>
     c = CHR 0x1C \<or> c = CHR 0x1D \<or> c = CHR 0x1E \<or> c = CHR 0x85"

fun splitlines_from :: "string \<Rightarrow> string \<Rightarrow> string list" where
  "splitlines_from cur [] = (if cur = [] then [] else [cur])"
| "splitlines_from cur [c] = (if is_linebreak c then [cur] else [cur @ [c]])"
| "splitlines_from cur (c # d # cs) =
     (if c = CHR 0x0D \<and> d = CHR 0x0A then cur # splitlines_from [] cs
      else if is_linebreak c then cur # splitlines_from [] (d # cs)
      else splitlines_from (cur @ [c]) (d # cs))"

definition splitlines :: "string \<Rightarrow> string list" where
  "splitlines s = splitlines_from [] s"

fun join :: "string \<Rightarrow> string list \<Rightarrow> string" where
  "join sep [] = []"
| "join sep [x] = x"
| "join sep (x # y # ys) = x @ sep @ join sep (y # ys)"

definition truncate_lines :: "string \<Rightarrow> string" where
  "truncate_lines out = join [NL] (map (take 150) (splitlines out))"

definition tag_list_to_tree ::
  "('c, 'm::linorder) env \<Rightarrow> ('c, 'm) navigator \<Rightarrow> ParsedTag list \<Rightarrow> bool
     \<Rightarrow> string \<times> ('c, 'm) navigator" where
  "tag_list_to_tree E nav tags use_end_line =
     (if tags = [] then ([], nav)
      else case tag_loop E use_end_line (tags @ [dummy_tag]) [] [] [] [] nav of
             (out, nav1) \<Rightarrow> (truncate_lines out, nav1))"

section \<open>The two queries\<close>

definition tag_sort_key :: "ParsedTag \<Rightarrow> string \<times> int" where
  "tag_sort_key tag = (rel_path tag, start_line tag)"

text \<open>
  The definition tags of a symbol: the loop over \<^verbatim>\<open>def_rels\<close> under the guard
  \<^verbatim>\<open>if symbol:\<close>. \<^verbatim>\<open>rel_file_path not in def_rel\<close> is Python's substring test.
\<close>

definition collect_def_tags :: "tag_index \<Rightarrow> string \<Rightarrow> string option \<Rightarrow> ParsedTag list" where
  "collect_def_tags idx symbol rel_file_path =
     (case idx of (ident2defrels, ident2refrels, identwrel2deftags, identwrel2reftags) \<Rightarrow>
        if symbol \<noteq> [] then
          foldl (\<lambda>def_tags def_rel.
                   if (case rel_file_path of None \<Rightarrow> False | Some p \<Rightarrow> \<not> sublist p def_rel)
                   then def_tags
                   else set_update def_tags (dict_get identwrel2deftags (def_rel, symbol)))
                [] (dict_get ident2defrels symbol)
        else [])"

definition collect_ref_tags :: "tag_index \<Rightarrow> string \<Rightarrow> ParsedTag list" where
  "collect_ref_tags idx symbol =
     (case idx of (ident2defrels, ident2refrels, identwrel2deftags, identwrel2reftags) \<Rightarrow>
        foldl (\<lambda>ref_tags ref_rel.
                 set_update ref_tags (dict_get identwrel2reftags (ref_rel, symbol)))
              [] (dict_get ident2refrels symbol))"

definition definitions_header :: "string \<Rightarrow> string" where
  "definitions_header symbol = [NL] @ ''Definition(s) of `'' @ symbol @ ''`:'' @ [NL]"

definition references_header :: "string \<Rightarrow> string" where
  "references_header symbol = [NL] @ ''References to `'' @ symbol @ ''`:'' @ [NL]"

text \<open>
  \<^verbatim>\<open>get_definitions_tree(symbol, rel_file_path=None, use_end_line=True)\<close>; the two
  defaults are passed explicitly.
\<close>

definition get_definitions_tree ::
  "('c, 'm::linorder) env \<Rightarrow> ('c, 'm) navigator \<Rightarrow> string \<Rightarrow> string option \<Rightarrow> bool
     \<Rightarrow> error + string \<times> ('c, 'm) navigator" where
  "get_definitions_tree E nav symbol rel_file_path use_end_line =
     (case get_parsed_tags E None None of
        Inl e \<Rightarrow> Inl e
      | Inr idx \<Rightarrow>
          let def_tags = collect_def_tags idx symbol rel_file_path;
              def_tags_list = sort_key tag_sort_key def_tags
          in case tag_list_to_tree E nav def_tags_list use_end_line of
               (tree, nav1) \<Rightarrow> Inr (definitions_header symbol @ tree @ [NL], nav1))"

definition get_references_tree ::
  "('c, 'm::linorder) env \<Rightarrow> ('c, 'm) navigator \<Rightarrow> string
     \<Rightarrow> error + string \<times> ('c, 'm) navigator" where
  "get_references_tree E nav symbol =
     (case get_parsed_tags E None None of
        Inl e \<Rightarrow> Inl e
      | Inr idx \<Rightarrow>
          let ref_tags = collect_ref_tags idx symbol;
              ref_tags_list = sort_key tag_sort_key ref_tags
          in case tag_list_to_tree E nav ref_tags_list False of
               (tree, nav1) \<Rightarrow> Inr (references_header symbol @ tree @ [NL], nav1))"

section \<open>Specification-side notions\<close>

text \<open>
  Grouping as the specification words it: consecutive tags of the same file form one
  group, kept as its first tag and the remaining ones. A section is what one group hands
  to the renderer: the absolute and the relative path of the first tag and the lines of
  interest of all tags of the group, in order. \<open>render_sections\<close> renders the sections one
  after the other: a section with lines of interest prints its path and the excerpt, a
  section without any prints only its path header.
\<close>

fun group_consecutive :: "ParsedTag list \<Rightarrow> (ParsedTag \<times> ParsedTag list) list" where
  "group_consecutive [] = []"
| "group_consecutive (t # ts) =
     (case group_consecutive ts of
        [] \<Rightarrow> [(t, [])]
      | (h, g) # gs \<Rightarrow> (if rel_path h = rel_path t then (t, h # g) # gs
                         else (t, []) # (h, g) # gs))"

definition section_of :: "bool \<Rightarrow> ParsedTag \<times> ParsedTag list \<Rightarrow> string \<times> string \<times> int list" where
  "section_of use_end_line grp =
     (abs_path (fst grp), rel_path (fst grp),
      concat (map (tag_lois use_end_line) (fst grp # snd grp)))"

fun render_sections ::
  "('c, 'm::linorder) env \<Rightarrow> (string \<times> string \<times> int list) list \<Rightarrow> string
     \<Rightarrow> ('c, 'm) navigator \<Rightarrow> string \<times> ('c, 'm) navigator" where
  "render_sections E [] out nav = (out, nav)"
| "render_sections E ((abs_file, rel_file, los) # secs) out nav =
     (if los \<noteq> [] then
        (case render_tree E nav abs_file rel_file los of (res, nav1) \<Rightarrow>
           render_sections E secs (out @ rel_file @ '':'' @ [NL] @ res) nav1)
      else render_sections E secs (out @ [NL] @ rel_file @ '':'' @ [NL]) nav)"

text \<open>
  Putting a section in front of a list of sections; it merges with the first one when both
  belong to the same relative path.
\<close>

definition prepend_section ::
  "string \<Rightarrow> string \<Rightarrow> int list \<Rightarrow> (string \<times> string \<times> int list) list
     \<Rightarrow> (string \<times> string \<times> int list) list" where
  "prepend_section a r l secs =
     (case secs of
        [] \<Rightarrow> [(a, r, l)]
      | (a1, r1, l1) # rest \<Rightarrow> (if r1 = r then (a, r, l @ l1) # rest else (a, r, l) # secs))"

text \<open>
  Every cache entry of a file was stored under a modification time of at most \<open>M\<close>: the
  state of the caches before the file is written again at a later time.
\<close>

definition cache_bounded :: "('c, 'm::linorder) navigator \<Rightarrow> string \<Rightarrow> 'm \<Rightarrow> bool" where
  "cache_bounded nav rel_file M \<longleftrightarrow>
     (\<forall>los m. rendered_tree_cache nav (rel_file, los, m) \<noteq> None \<longrightarrow> m \<le> M) \<and>
     (\<forall>c m. file_context_cache nav rel_file = Some (c, m) \<longrightarrow> m \<le> M)"

section \<open>A concrete project\<close>

text \<open>
  The project of the repository's integration test: \<^verbatim>\<open>test_def.py\<close> defines a class
  \<^verbatim>\<open>TestSymbol\<close> with a method \<^verbatim>\<open>test_method\<close>, and \<^verbatim>\<open>test_ref.py\<close> uses both.
  The renderer of the example prints the numbered lines of interest, in file order.
\<close>

definition mk_tag :: "string \<Rightarrow> string \<Rightarrow> TagKind \<Rightarrow> int \<Rightarrow> int \<Rightarrow> ParsedTag" where
  "mk_tag rel ident kind s e =
     \<lparr>abs_path = ''/ws/'' @ rel, rel_path = rel, node_content = ident, tag_kind = kind,
      start_line = s, end_line = e\<rparr>"

definition example_tags :: "string \<Rightarrow> ParsedTag list" where
  "example_tags abs_file =
     (if abs_file = ''/ws/test_def.py'' then
        [mk_tag ''test_def.py'' ''TestSymbol'' DEF 1 3,
         mk_tag ''test_def.py'' ''test_method'' DEF 2 3]
      else if abs_file = ''/ws/test_ref.py'' then
        [mk_tag ''test_ref.py'' ''TestSymbol'' REF 1 1,
         mk_tag ''test_ref.py'' ''TestSymbol'' REF 3 3,
         mk_tag ''test_ref.py'' ''test_method'' REF 4 4]
      else [])"

definition example_text :: "string \<Rightarrow> string option" where
  "example_text abs_file =
     (if abs_file = ''/ws/test_def.py'' then
        Some (''class TestSymbol:'' @ [NL] @ ''    def test_method(self):'' @ [NL] @ ''        pass'')
      else if abs_file = ''/ws/test_ref.py'' then
        Some (''from test_def import TestSymbol'' @ [NL] @ [NL] @ ''obj = TestSymbol()'' @ [NL] @
              ''obj.test_method()'')
      else None)"

definition example_format :: "string \<Rightarrow> int list \<Rightarrow> string \<times> string" where
  "example_format code los =
     (code, concat (map (\<lambda>(i, l). if int i \<in> set los then l @ [NL] else [])
                        (enumerate 1 (splitlines code))))"

definition example_env :: "(string, nat) env" where
  "example_env =
     \<lparr>get_all_absolute_tracked_files = (\<lambda>depth. Inr [''/ws/test_def.py'', ''/ws/test_ref.py'']),
      get_absolute_tracked_files_in_directory =
        (\<lambda>d depth. Inr [''/ws/test_def.py'', ''/ws/test_ref.py'']),
      get_relative_path_str = drop 4,
      get_tags_from_file = (\<lambda>abs_file rel_file. Inr (example_tags abs_file)),
      get_modified_time = (\<lambda>abs_file. 1),
      read_text = example_text,
      TreeContext = (\<lambda>filename code. code),
      format_lois = example_format\<rparr>"

text \<open>The same project when the listing raises, as it does outside a repository.\<close>

definition no_repo_env :: "(string, nat) env" where
  "no_repo_env =
     example_env\<lparr>get_all_absolute_tracked_files :=
                   (\<lambda>depth. Inl (Raised ''No git repository found''))\<rparr>"

text \<open>The same project when the extractor raises on the first file.\<close>

definition broken_file_env :: "(string, nat) env" where
  "broken_file_env =
     example_env\<lparr>get_tags_from_file :=
                   (\<lambda>abs_file rel_file.
                      if abs_file = ''/ws/test_def.py'' then Inl (Raised ''cannot parse'')
                      else Inr (example_tags abs_file))\<rparr>"

text \<open>
  The same project when \<^verbatim>\<open>test_ref.py\<close> defines a second \<^verbatim>\<open>TestSymbol\<close> on its
  lines 3 to 4 and is listed first.
\<close>

definition shadow_env :: "(string, nat) env" where
  "shadow_env =
     example_env\<lparr>get_all_absolute_tracked_files :=
                   (\<lambda>depth. Inr [''/ws/test_ref.py'', ''/ws/test_def.py'']),
                 get_tags_from_file :=
                   (\<lambda>abs_file rel_file.
                      if abs_file = ''/ws/test_ref.py''
                      then Inr (example_tags abs_file @ [mk_tag ''test_ref.py'' ''TestSymbol'' DEF 3 4])
                      else Inr (example_tags abs_file))\<rparr>"

text \<open>The same project after \<^verbatim>\<open>test_def.py\<close> was rewritten at time 2.\<close>

definition edited_env :: "(string, nat) env" where
  "edited_env =
     example_env\<lparr>get_modified_time := (\<lambda>abs_file. if abs_file = ''/ws/test_def.py'' then 2 else 1),
                 read_text := (\<lambda>abs_file. if abs_file = ''/ws/test_def.py''
                                 then Some (''class TestSymbol(Base):'' @ [NL] @ ''    x = 1'' @ [NL] @ ''    y = 2'' @ [NL])
                                 else example_text abs_file)\<rparr>"

text \<open>
  The same project when the first line of \<^verbatim>\<open>test_def.py\<close> is a generated line of
  500 characters.
\<close>

definition minified_line :: string where
  "minified_line = ''class TestSymbol:  # '' @ replicate 479 (CHR ''x'')"

definition minified_env :: "(string, nat) env" where
  "minified_env =
     example_env\<lparr>read_text := (\<lambda>abs_file. if abs_file = ''/ws/test_def.py''
                                 then Some (minified_line @ [NL] @ ''    def test_method(self):'' @ [NL] @ ''        pass'')
                                 else example_text abs_file)\<rparr>"

text \<open>
  The same project when the files carry the modification time 3. \<open>rolled_back_nav\<close> is the
  navigator that has rendered \<^verbatim>\<open>test_def.py\<close> at time 3 and then again after the time
  stamp of the file was set back to 1, its content being the same (the state before the
  edit of \<open>edited_env\<close>, which happens at time 2).
\<close>

definition ahead_env :: "(string, nat) env" where
  "ahead_env = example_env\<lparr>get_modified_time := (\<lambda>abs_file. 3)\<rparr>"

definition rolled_back_nav :: "(string, nat) navigator" where
  "rolled_back_nav =
     snd (render_tree example_env
            (snd (render_tree ahead_env new_navigator ''/ws/test_def.py'' ''test_def.py'' [1, 2, 3]))
            ''/ws/test_def.py'' ''test_def.py'' [1, 2, 3])"

section \<open>Basic facts\<close>

lemma tag_list_to_tree_Nil: "tag_list_to_tree E nav [] u = ([], nav)"
  by (simp add: tag_list_to_tree_def)

lemma collect_def_tags_empty_symbol: "collect_def_tags idx [] p = []"
  by (simp add: collect_def_tags_def split: prod.splits)

lemma example_index_built: "\<not> isl (get_parsed_tags example_env None None)"
  by code_simp

subsection \<open>What the index holds\<close>

lemma set_set_add: "set (set_add x s) = insert x (set s)"
  by (auto simp: set_add_def)

lemma set_set_update: "set (set_update s xs) = set s \<union> set xs"
  unfolding set_update_def
  by (induction xs arbitrary: s) (auto simp: set_set_add)

lemma add_parsed_tag_deftags:
  "set (dict_get (identwrel2deftags_of (add_parsed_tag rel idx t)) (r, i)) =
     set (dict_get (identwrel2deftags_of idx) (r, i)) \<union>
     (if r = rel \<and> tag_kind t = DEF \<and> node_content t = i then {t} else {})"
  by (cases idx)
     (auto simp: add_parsed_tag_def identwrel2deftags_of_def dict_get_def set_set_add Let_def)

lemma add_parsed_tag_reftags:
  "set (dict_get (identwrel2reftags_of (add_parsed_tag rel idx t)) (r, i)) =
     set (dict_get (identwrel2reftags_of idx) (r, i)) \<union>
     (if r = rel \<and> tag_kind t = REF \<and> node_content t = i then {t} else {})"
  by (cases idx)
     (auto simp: add_parsed_tag_def identwrel2reftags_of_def dict_get_def set_set_add Let_def)

lemma add_parsed_tag_defrels:
  "set (dict_get (ident2defrels_of (add_parsed_tag rel idx t)) i) =
     set (dict_get (ident2defrels_of idx) i) \<union>
     (if tag_kind t = DEF \<and> node_content t = i then {rel} else {})"
  by (cases idx)
     (auto simp: add_parsed_tag_def ident2defrels_of_def dict_get_def set_set_add Let_def)

lemma add_parsed_tag_refrels:
  "set (dict_get (ident2refrels_of (add_parsed_tag rel idx t)) i) =
     set (dict_get (ident2refrels_of idx) i) \<union>
     (if tag_kind t = REF \<and> node_content t = i then {rel} else {})"
  by (cases idx)
     (auto simp: add_parsed_tag_def ident2refrels_of_def dict_get_def Let_def)

lemma foldl_add_deftags:
  "set (dict_get (identwrel2deftags_of (foldl (add_parsed_tag rel) idx ts)) (r, i)) =
     set (dict_get (identwrel2deftags_of idx) (r, i)) \<union>
     {t \<in> set ts. r = rel \<and> tag_kind t = DEF \<and> node_content t = i}"
  by (induction ts arbitrary: idx) (auto simp: add_parsed_tag_deftags)

lemma foldl_add_reftags:
  "set (dict_get (identwrel2reftags_of (foldl (add_parsed_tag rel) idx ts)) (r, i)) =
     set (dict_get (identwrel2reftags_of idx) (r, i)) \<union>
     {t \<in> set ts. r = rel \<and> tag_kind t = REF \<and> node_content t = i}"
  by (induction ts arbitrary: idx) (auto simp: add_parsed_tag_reftags)

lemma foldl_add_defrels:
  "set (dict_get (ident2defrels_of (foldl (add_parsed_tag rel) idx ts)) i) =
     set (dict_get (ident2defrels_of idx) i) \<union>
     {r. r = rel \<and> (\<exists>t \<in> set ts. tag_kind t = DEF \<and> node_content t = i)}"
  by (induction ts arbitrary: idx) (auto simp: add_parsed_tag_defrels)

lemma foldl_add_refrels:
  "set (dict_get (ident2refrels_of (foldl (add_parsed_tag rel) idx ts)) i) =
     set (dict_get (ident2refrels_of idx) i) \<union>
     {r. r = rel \<and> (\<exists>t \<in> set ts. tag_kind t = REF \<and> node_content t = i)}"
  by (induction ts arbitrary: idx) (auto simp: add_parsed_tag_refrels)

lemma scan_files_isl:
  "isl (scan_files E files idx) \<longleftrightarrow>
     (\<exists>f \<in> set files. isl (get_tags_from_file E f (get_relative_path_str E f)))"
  by (induction files arbitrary: idx) (auto simp: Let_def split: sum.splits)

lemma scan_files_deftags:
  "scan_files E files idx = Inr idx' \<Longrightarrow>
   set (dict_get (identwrel2deftags_of idx') (r, i)) =
     set (dict_get (identwrel2deftags_of idx) (r, i)) \<union>
     {t. \<exists>f \<in> set files. get_relative_path_str E f = r \<and> t \<in> file_tags E f \<and>
           tag_kind t = DEF \<and> node_content t = i}"
proof (induction files arbitrary: idx)
  case Nil
  then show ?case by simp
next
  case (Cons f files)
  then show ?case
    by (auto simp: Let_def foldl_add_deftags file_tags_def split: sum.splits)
qed

lemma scan_files_reftags:
  "scan_files E files idx = Inr idx' \<Longrightarrow>
   set (dict_get (identwrel2reftags_of idx') (r, i)) =
     set (dict_get (identwrel2reftags_of idx) (r, i)) \<union>
     {t. \<exists>f \<in> set files. get_relative_path_str E f = r \<and> t \<in> file_tags E f \<and>
           tag_kind t = REF \<and> node_content t = i}"
proof (induction files arbitrary: idx)
  case Nil
  then show ?case by simp
next
  case (Cons f files)
  then show ?case
    by (auto simp: Let_def foldl_add_reftags file_tags_def split: sum.splits)
qed

lemma scan_files_defrels:
  "scan_files E files idx = Inr idx' \<Longrightarrow>
   set (dict_get (ident2defrels_of idx') i) =
     set (dict_get (ident2defrels_of idx) i) \<union>
     {r. \<exists>f \<in> set files. get_relative_path_str E f = r \<and>
           (\<exists>t \<in> file_tags E f. tag_kind t = DEF \<and> node_content t = i)}"
proof (induction files arbitrary: idx)
  case Nil
  then show ?case by simp
next
  case (Cons f files)
  then show ?case
    by (auto simp: Let_def foldl_add_defrels file_tags_def split: sum.splits)
qed

lemma scan_files_refrels:
  "scan_files E files idx = Inr idx' \<Longrightarrow>
   set (dict_get (ident2refrels_of idx') i) =
     set (dict_get (ident2refrels_of idx) i) \<union>
     {r. \<exists>f \<in> set files. get_relative_path_str E f = r \<and>
           (\<exists>t \<in> file_tags E f. tag_kind t = REF \<and> node_content t = i)}"
proof (induction files arbitrary: idx)
  case Nil
  then show ?case by simp
next
  case (Cons f files)
  then show ?case
    by (auto simp: Let_def foldl_add_refrels file_tags_def split: sum.splits)
qed

lemma dict_get_empty_index [simp]:
  "dict_get (identwrel2deftags_of empty_index) k = []"
  "dict_get (identwrel2reftags_of empty_index) k = []"
  "dict_get (ident2defrels_of empty_index) i = []"
  "dict_get (ident2refrels_of empty_index) i = []"
  by (simp_all add: dict_get_def empty_index_def identwrel2deftags_of_def
      identwrel2reftags_of_def ident2defrels_of_def ident2refrels_of_def)

lemma get_parsed_tags_all:
  "get_all_absolute_tracked_files E depth = Inr files \<Longrightarrow>
   get_parsed_tags E depth None = scan_files E files empty_index"
  by (simp add: get_parsed_tags_def)

lemma set_collect_def_tags:
  "set (collect_def_tags idx symbol (Some F)) =
     {t. symbol \<noteq> [] \<and> (\<exists>rel \<in> set (dict_get (ident2defrels_of idx) symbol).
            sublist F rel \<and> t \<in> set (dict_get (identwrel2deftags_of idx) (rel, symbol)))}"
proof -
  have fold: "set (foldl (\<lambda>def_tags def_rel.
                   if \<not> sublist F def_rel then def_tags
                   else set_update def_tags (dict_get m (def_rel, symbol))) acc rels) =
              set acc \<union> {t. \<exists>rel \<in> set rels. sublist F rel \<and> t \<in> set (dict_get m (rel, symbol))}"
    for m :: "string \<times> string \<rightharpoonup> ParsedTag list" and acc rels
    by (induction rels arbitrary: acc) (auto simp: set_set_update)
  show ?thesis
    by (cases idx)
       (auto simp: collect_def_tags_def fold ident2defrels_of_def identwrel2deftags_of_def)
qed

subsection \<open>Lines of the rendered text\<close>

lemma splitlines_from_clean:
  "\<forall>c \<in> set cur. \<not> is_linebreak c \<Longrightarrow> l \<in> set (splitlines_from cur s) \<Longrightarrow>
   \<forall>c \<in> set l. \<not> is_linebreak c"
proof (induction cur s rule: splitlines_from.induct)
  case (1 cur)
  then show ?case by (simp split: if_splits)
next
  case (2 cur c)
  then show ?case by (auto split: if_splits)
next
  case (3 cur c d cs)
  have empty: "\<forall>c \<in> set ([] :: string). \<not> is_linebreak c" by simp
  show ?case
  proof (cases "c = CHR 0x0D \<and> d = CHR 0x0A")
    case True
    then have eq: "splitlines_from cur (c # d # cs) = cur # splitlines_from [] cs"
      by simp
    from "3.prems"(2) have "l = cur \<or> l \<in> set (splitlines_from [] cs)"
      unfolding eq by simp
    then show ?thesis
    proof
      assume "l = cur" with "3.prems"(1) show ?thesis by simp
    next
      assume "l \<in> set (splitlines_from [] cs)"
      from "3.IH"(1) [OF True empty this] show ?thesis .
    qed
  next
    case False
    show ?thesis
    proof (cases "is_linebreak c")
      case True
      have eq: "splitlines_from cur (c # d # cs) = cur # splitlines_from [] (d # cs)"
        by (simp only: splitlines_from.simps False True if_False if_True)
      from "3.prems"(2) have "l = cur \<or> l \<in> set (splitlines_from [] (d # cs))"
        unfolding eq by simp
      then show ?thesis
      proof
        assume "l = cur" with "3.prems"(1) show ?thesis by simp
      next
        assume "l \<in> set (splitlines_from [] (d # cs))"
        from "3.IH"(2) [OF False True empty this] show ?thesis .
      qed
    next
      case nb: False
      have eq: "splitlines_from cur (c # d # cs) = splitlines_from (cur @ [c]) (d # cs)"
        by (simp only: splitlines_from.simps False nb if_False)
      have clean: "\<forall>x \<in> set (cur @ [c]). \<not> is_linebreak x"
        using "3.prems"(1) nb by simp
      from "3.prems"(2) have "l \<in> set (splitlines_from (cur @ [c]) (d # cs))"
        unfolding eq .
      from "3.IH"(3) [OF False nb clean this] show ?thesis .
    qed
  qed
qed

lemma splitlines_clean: "l \<in> set (splitlines s) \<Longrightarrow> \<not> is_linebreak c \<or> c \<notin> set l"
  using splitlines_from_clean [of "[]" l s] by (auto simp: splitlines_def)

lemma splitlines_from_NL: "splitlines_from cur (NL # rest) = cur # splitlines_from [] rest"
  by (cases rest) (simp_all add: is_linebreak_def)

lemma splitlines_from_append_clean:
  "\<forall>c \<in> set p. \<not> is_linebreak c \<Longrightarrow>
   splitlines_from cur (p @ rest) = splitlines_from (cur @ p) rest"
proof (induction p arbitrary: cur)
  case Nil
  then show ?case by simp
next
  case (Cons c p)
  then have c: "\<not> is_linebreak c" and p: "\<forall>c \<in> set p. \<not> is_linebreak c" by simp_all
  from c have cr: "c \<noteq> CHR 0x0D" by (auto simp: is_linebreak_def)
  show ?case
  proof (cases "p @ rest")
    case Nil
    with c show ?thesis by simp
  next
    case (Cons d cs)
    have "splitlines_from cur ((c # p) @ rest) = splitlines_from (cur @ [c]) (p @ rest)"
      using c cr Cons by simp
    also have "\<dots> = splitlines_from ((cur @ [c]) @ p) rest"
      by (rule Cons.IH [OF p])
    finally show ?thesis by simp
  qed
qed

lemma splitlines_from_join:
  "\<forall>q \<in> set (p # ps). \<forall>c \<in> set q. \<not> is_linebreak c \<Longrightarrow>
   set (splitlines_from cur (join [NL] (p # ps))) \<subseteq> insert (cur @ p) (set ps)"
proof (induction ps arbitrary: cur p)
  case Nil
  then show ?case
    using splitlines_from_append_clean [of p cur "[]"] by simp
next
  case (Cons q qs)
  have "splitlines_from cur (join [NL] (p # q # qs))
          = splitlines_from (cur @ p) (NL # join [NL] (q # qs))"
    using Cons.prems splitlines_from_append_clean [of p cur "NL # join [NL] (q # qs)"] by simp
  also have "\<dots> = (cur @ p) # splitlines_from [] (join [NL] (q # qs))"
    by (rule splitlines_from_NL)
  finally show ?case
    using Cons.IH [of q "[]"] Cons.prems by auto
qed

lemma truncate_lines_bound:
  assumes "l \<in> set (splitlines (truncate_lines out))"
  shows "length l \<le> 150"
proof (cases "splitlines out")
  case Nil
  with assms show ?thesis by (simp add: truncate_lines_def splitlines_def)
next
  case (Cons p ps)
  have clean: "\<forall>q \<in> set (take 150 p # map (take 150) ps). \<forall>c \<in> set q. \<not> is_linebreak c"
  proof (intro ballI)
    fix q c assume q: "q \<in> set (take 150 p # map (take 150) ps)" and c: "c \<in> set q"
    from q obtain r where r: "r \<in> set (splitlines out)" and qr: "q = take 150 r"
      using Cons by auto
    from c qr have "c \<in> set r" by (auto dest: in_set_takeD)
    with splitlines_clean [OF r] show "\<not> is_linebreak c" by blast
  qed
  from assms Cons splitlines_from_join [OF clean, of "[]"]
  have "l \<in> insert (take 150 p) (set (map (take 150) ps))"
    by (auto simp: truncate_lines_def splitlines_def)
  then show ?thesis by auto
qed

lemma tag_list_to_tree_lines:
  assumes "tag_list_to_tree E nav tags u = (tree, nav1)"
      and "l \<in> set (splitlines tree)"
  shows "length l \<le> 150"
proof (cases "tags = []")
  case True
  with assms show ?thesis by (simp add: tag_list_to_tree_def splitlines_def)
next
  case False
  obtain out n where "tag_loop E u (tags @ [dummy_tag]) [] [] [] [] nav = (out, n)"
    by (cases "tag_loop E u (tags @ [dummy_tag]) [] [] [] [] nav")
  with False assms(1) have "tree = truncate_lines out"
    by (simp add: tag_list_to_tree_def)
  with assms(2) show ?thesis by (simp add: truncate_lines_bound)
qed

lemma splitlines_from_Nil_iff: "splitlines_from cur s = [] \<longleftrightarrow> cur = [] \<and> s = []"
  by (induction cur s rule: splitlines_from.induct) auto

lemma splitlines_from_join_NL:
  "\<forall>q \<in> set (p # ps). \<forall>c \<in> set q. \<not> is_linebreak c \<Longrightarrow>
   splitlines_from cur (join [NL] (p # ps) @ [NL]) = (cur @ p) # ps"
proof (induction ps arbitrary: cur p)
  case Nil
  then have "splitlines_from cur (p @ [NL]) = splitlines_from (cur @ p) [NL]"
    using splitlines_from_append_clean [of p cur "[NL]"] by simp
  then show ?case by (simp add: is_linebreak_def)
next
  case (Cons q qs)
  have "splitlines_from cur (join [NL] (p # q # qs) @ [NL])
          = splitlines_from cur (p @ NL # (join [NL] (q # qs) @ [NL]))" by simp
  also have "\<dots> = splitlines_from (cur @ p) (NL # (join [NL] (q # qs) @ [NL]))"
    using Cons.prems splitlines_from_append_clean [of p cur] by simp
  also have "\<dots> = (cur @ p) # splitlines_from [] (join [NL] (q # qs) @ [NL])"
    by (rule splitlines_from_NL)
  also have "splitlines_from [] (join [NL] (q # qs) @ [NL]) = ([] @ q) # qs"
    using Cons.prems by (intro Cons.IH) simp
  finally show ?case by simp
qed

lemma truncate_lines_Nil: "truncate_lines [] = []"
  by (simp add: truncate_lines_def splitlines_def)

lemma truncate_lines_exact:
  assumes "out \<noteq> []"
  shows "splitlines (truncate_lines out @ [NL]) = map (take 150) (splitlines out)"
proof (cases "splitlines out")
  case Nil
  with assms show ?thesis by (simp add: splitlines_def splitlines_from_Nil_iff)
next
  case (Cons p ps)
  have clean: "\<forall>q \<in> set (take 150 p # map (take 150) ps). \<forall>c \<in> set q. \<not> is_linebreak c"
  proof (intro ballI)
    fix q c assume q: "q \<in> set (take 150 p # map (take 150) ps)" and c: "c \<in> set q"
    from q obtain r where r: "r \<in> set (splitlines out)" and qr: "q = take 150 r"
      using Cons by auto
    from c qr have "c \<in> set r" by (auto dest: in_set_takeD)
    with splitlines_clean [OF r] show "\<not> is_linebreak c" by blast
  qed
  from splitlines_from_join_NL [OF clean, of "[]"] Cons
  show ?thesis by (simp add: truncate_lines_def splitlines_def)
qed

lemma tag_list_to_tree_truncates:
  assumes "tag_list_to_tree E nav tags u = (tree, nav1)"
  shows "tree = truncate_lines (fst (tag_loop E u (tags @ [dummy_tag]) [] [] [] [] nav))"
proof (cases "tags = []")
  case True
  with assms show ?thesis
    by (simp add: tag_list_to_tree_def dummy_tag_def truncate_lines_Nil)
next
  case False
  with assms show ?thesis
    by (simp add: tag_list_to_tree_def split: prod.splits)
qed

lemma definitions_tree_shape:
  assumes "get_definitions_tree E nav symbol p u = Inr (res, nav1)"
  shows "\<exists>idx tree. get_parsed_tags E None None = Inr idx \<and>
           tag_list_to_tree E nav (sort_key tag_sort_key (collect_def_tags idx symbol p)) u
             = (tree, nav1) \<and>
           res = definitions_header symbol @ tree @ [NL]"
proof (cases "get_parsed_tags E None None")
  case (Inl e)
  with assms show ?thesis by (simp add: get_definitions_tree_def)
next
  case (Inr idx)
  obtain tree n where
    t: "tag_list_to_tree E nav (sort_key tag_sort_key (collect_def_tags idx symbol p)) u = (tree, n)"
    by (cases "tag_list_to_tree E nav (sort_key tag_sort_key (collect_def_tags idx symbol p)) u")
  with assms Inr show ?thesis by (simp add: get_definitions_tree_def)
qed

lemma references_tree_shape:
  assumes "get_references_tree E nav symbol = Inr (res, nav1)"
  shows "\<exists>idx tree. get_parsed_tags E None None = Inr idx \<and>
           tag_list_to_tree E nav (sort_key tag_sort_key (collect_ref_tags idx symbol)) False
             = (tree, nav1) \<and>
           res = references_header symbol @ tree @ [NL]"
proof (cases "get_parsed_tags E None None")
  case (Inl e)
  with assms show ?thesis by (simp add: get_references_tree_def)
next
  case (Inr idx)
  obtain tree n where
    t: "tag_list_to_tree E nav (sort_key tag_sort_key (collect_ref_tags idx symbol)) False = (tree, n)"
    by (cases "tag_list_to_tree E nav (sort_key tag_sort_key (collect_ref_tags idx symbol)) False")
  with assms Inr show ?thesis by (simp add: get_references_tree_def)
qed

lemma example_definitions_returns:
  "\<not> isl (get_definitions_tree example_env new_navigator ''TestSymbol'' None True)"
  by code_simp

lemma minified_out:
  "fst (tag_loop minified_env True
          (sort_key tag_sort_key
             (collect_def_tags (projr (get_parsed_tags minified_env None None)) ''TestSymbol'' None)
           @ [dummy_tag]) [] [] [] [] new_navigator)
   = ''test_def.py:'' @ [NL] @ minified_line @ [NL] @ ''    def test_method(self):'' @ [NL] @
     ''        pass'' @ [NL]"
  by code_simp


lemma minified_returns:
  "\<not> isl (get_definitions_tree minified_env new_navigator ''TestSymbol'' None True)"
  by code_simp

lemma minified_cut:
  "map (take 150) (splitlines (''test_def.py:'' @ [NL] @ minified_line @ [NL] @
       ''    def test_method(self):'' @ [NL] @ ''        pass'' @ [NL]))
   = [''test_def.py:'', ''class TestSymbol:  # '' @ replicate 129 (CHR ''x''),
      ''    def test_method(self):'', ''        pass'']"
  by code_simp

subsection \<open>The rendered-tree cache\<close>

lemma render_tree_hit:
  "rendered_tree_cache nav (rel_file, sort los, get_modified_time E abs_file) = Some res \<Longrightarrow>
   render_tree E nav abs_file rel_file los = (res, nav)"
  by (simp add: render_tree_def)

lemma render_tree_fresh:
  assumes "rendered_tree_cache nav (rel_file, sort los, get_modified_time E abs_file) = None"
      and "\<forall>c m. file_context_cache nav rel_file = Some (c, m) \<longrightarrow> m < get_modified_time E abs_file"
  shows "render_tree E nav abs_file rel_file los =
           (let code = ensure_newline (case read_text E abs_file of None \<Rightarrow> [] | Some s \<Rightarrow> s);
                rendered = format_lois E (TreeContext E rel_file code) los
            in (snd rendered,
                nav\<lparr>read_log := read_log nav @ [abs_file],
                    file_context_cache := (file_context_cache nav)
                      (rel_file \<mapsto> (fst rendered, get_modified_time E abs_file)),
                    rendered_tree_cache := (rendered_tree_cache nav)
                      ((rel_file, sort los, get_modified_time E abs_file) \<mapsto> snd rendered)\<rparr>))"
proof (cases "file_context_cache nav rel_file")
  case None
  with assms(1) show ?thesis
    by (simp add: render_tree_def Let_def split: prod.splits)
next
  case (Some e)
  obtain c m where e: "e = (c, m)" by (cases e)
  with Some assms(2) have "m < get_modified_time E abs_file" by simp
  with Some e assms(1) show ?thesis
    by (simp add: render_tree_def Let_def split: prod.splits)
qed

lemma render_tree_cache_grows:
  "rendered_tree_cache nav \<subseteq>\<^sub>m rendered_tree_cache (snd (render_tree E nav abs_file rel_file los))"
  by (auto simp: render_tree_def Let_def map_le_def split: option.splits prod.splits)

lemma render_tree_cache_stores:
  "rendered_tree_cache (snd (render_tree E nav abs_file rel_file los))
     (rel_file, sort los, get_modified_time E abs_file)
   = Some (fst (render_tree E nav abs_file rel_file los))"
  by (auto simp: render_tree_def Let_def split: option.splits prod.splits)


lemma cache_bounded_new: "cache_bounded new_navigator rel_file M"
  by (simp add: cache_bounded_def new_navigator_def)

lemma cache_bounded_mono:
  "cache_bounded nav rel_file M \<Longrightarrow> M \<le> M' \<Longrightarrow> cache_bounded nav rel_file M'"
  unfolding cache_bounded_def by (meson order_trans)

lemma render_tree_cache_bounded:
  assumes "cache_bounded nav rel_file M"
      and "rel = rel_file \<longrightarrow> get_modified_time E abs_file \<le> M"
  shows "cache_bounded (snd (render_tree E nav abs_file rel los)) rel_file M"
  using assms
  by (auto simp: cache_bounded_def render_tree_def Let_def
      split: option.splits prod.splits if_splits)

lemma tag_loop_cache_grows:
  "rendered_tree_cache nav \<subseteq>\<^sub>m
     rendered_tree_cache (snd (tag_loop E u ts cr ca los out nav))"
proof (induction ts arbitrary: cr ca los out nav)
  case Nil
  then show ?case by simp
next
  case (Cons t ts)
  show ?case
  proof (cases "rel_path t \<noteq> cr \<and> los \<noteq> []")
    case True
    obtain res nav' where r: "render_tree E nav ca cr los = (res, nav')"
      by (cases "render_tree E nav ca cr los")
    have "rendered_tree_cache nav \<subseteq>\<^sub>m rendered_tree_cache nav'"
      using render_tree_cache_grows [of nav E ca cr los] r by simp
    also have "rendered_tree_cache nav' \<subseteq>\<^sub>m
        rendered_tree_cache (snd (tag_loop E u ts (rel_path t) (abs_path t) (tag_lois u t)
                                    (out @ cr @ '':'' @ [NL] @ res) nav'))"
      by (rule Cons.IH)
    finally show ?thesis using True r by simp
  next
    case False
    then show ?thesis using Cons.IH by auto
  qed
qed

lemma tag_loop_replay:
  assumes "rendered_tree_cache (snd (tag_loop E u ts cr ca los out nav)) \<subseteq>\<^sub>m
             rendered_tree_cache nav2"
      and "get_modified_time E2 = get_modified_time E"
  shows "tag_loop E2 u ts cr ca los out nav2 = (fst (tag_loop E u ts cr ca los out nav), nav2)"
  using assms(1)
proof (induction ts arbitrary: cr ca los out nav)
  case Nil
  then show ?case by simp
next
  case (Cons t ts)
  show ?case
  proof (cases "rel_path t \<noteq> cr \<and> los \<noteq> []")
    case True
    obtain res nav' where r: "render_tree E nav ca cr los = (res, nav')"
      by (cases "render_tree E nav ca cr los")
    let ?rest = "tag_loop E u ts (rel_path t) (abs_path t) (tag_lois u t)
                   (out @ cr @ '':'' @ [NL] @ res) nav'"
    have step: "tag_loop E u (t # ts) cr ca los out nav = ?rest"
      using True r by simp
    have le: "rendered_tree_cache (snd ?rest) \<subseteq>\<^sub>m rendered_tree_cache nav2"
      using Cons.prems step by simp
    have "rendered_tree_cache nav' (cr, sort los, get_modified_time E ca) = Some res"
      using render_tree_cache_stores [of E nav ca cr los] r by simp
    moreover have "rendered_tree_cache nav' \<subseteq>\<^sub>m rendered_tree_cache nav2"
      using tag_loop_cache_grows [of nav' E u ts] le by (rule map_le_trans)
    ultimately have "rendered_tree_cache nav2 (cr, sort los, get_modified_time E ca) = Some res"
      by (auto simp: map_le_def dom_def)
    then have hit: "render_tree E2 nav2 ca cr los = (res, nav2)"
      using render_tree_hit [of nav2 cr los E2 ca res] assms(2) by simp
    have "tag_loop E2 u (t # ts) cr ca los out nav2 =
            tag_loop E2 u ts (rel_path t) (abs_path t) (tag_lois u t)
              (out @ cr @ '':'' @ [NL] @ res) nav2"
      using True hit by simp
    also have "\<dots> = (fst ?rest, nav2)"
      by (rule Cons.IH [OF le])
    finally show ?thesis using step by simp
  next
    case False
    then show ?thesis using Cons.IH Cons.prems by auto
  qed
qed

lemma tag_list_to_tree_replay:
  assumes "tag_list_to_tree E nav tags u = (tree, nav1)"
      and "get_modified_time E2 = get_modified_time E"
  shows "tag_list_to_tree E2 nav1 tags u = (tree, nav1)"
proof (cases "tags = []")
  case True
  with assms(1) show ?thesis by (simp add: tag_list_to_tree_def)
next
  case False
  let ?run = "tag_loop E u (tags @ [dummy_tag]) [] [] [] [] nav"
  from False assms(1) have t: "tree = truncate_lines (fst ?run)" and n: "nav1 = snd ?run"
    by (simp_all add: tag_list_to_tree_def split: prod.splits)
  have "rendered_tree_cache (snd ?run) \<subseteq>\<^sub>m rendered_tree_cache nav1"
    using n by simp
  from tag_loop_replay [OF this assms(2)]
  have "tag_loop E2 u (tags @ [dummy_tag]) [] [] [] [] nav1 = (fst ?run, nav1)" .
  with False t show ?thesis by (simp add: tag_list_to_tree_def)
qed

subsection \<open>The loop renders the consecutive groups\<close>

lemma sections_Cons:
  "map (section_of u) (group_consecutive (t # ts)) =
     prepend_section (abs_path t) (rel_path t) (tag_lois u t)
       (map (section_of u) (group_consecutive ts))"
  by (cases "group_consecutive ts")
     (auto simp: prepend_section_def section_of_def)

lemma prepend_section_same:
  "prepend_section ca cr los (prepend_section a cr l secs) = prepend_section ca cr (los @ l) secs"
  by (auto simp: prepend_section_def split: list.splits)

lemma prepend_section_other:
  "r \<noteq> cr \<Longrightarrow>
   prepend_section ca cr los (prepend_section a r l secs) = (ca, cr, los) # prepend_section a r l secs"
  by (auto simp: prepend_section_def split: list.splits)

lemma tag_loop_sections:
  assumes "cr \<noteq> []" and "\<forall>t \<in> set ts. rel_path t \<noteq> []"
  shows "tag_loop E u (ts @ [dummy_tag]) cr ca los out nav =
           render_sections E
             (prepend_section ca cr los (map (section_of u) (group_consecutive ts))) out nav"
  using assms
proof (induction ts arbitrary: cr ca los out nav)
  case Nil
  then show ?case
    by (simp add: dummy_tag_def prepend_section_def split: prod.splits)
next
  case (Cons t ts)
  let ?S = "map (section_of u) (group_consecutive ts)"
  have rt: "rel_path t \<noteq> []" and rest: "\<forall>x \<in> set ts. rel_path x \<noteq> []"
    using Cons.prems(2) by simp_all
  show ?case
  proof (cases "rel_path t = cr")
    case True
    have "tag_loop E u ((t # ts) @ [dummy_tag]) cr ca los out nav =
            tag_loop E u (ts @ [dummy_tag]) cr ca (los @ tag_lois u t) out nav"
      using True by simp
    also have "\<dots> = render_sections E (prepend_section ca cr (los @ tag_lois u t) ?S) out nav"
      by (rule Cons.IH [OF Cons.prems(1) rest])
    finally show ?thesis
      using True by (simp only: sections_Cons prepend_section_same)
  next
    case False
    let ?T = "prepend_section (abs_path t) (rel_path t) (tag_lois u t) ?S"
    have secs: "prepend_section ca cr los (map (section_of u) (group_consecutive (t # ts)))
                  = (ca, cr, los) # ?T"
      unfolding sections_Cons by (rule prepend_section_other [OF False])
    show ?thesis
    proof (cases "los = []")
      case True
      have "tag_loop E u ((t # ts) @ [dummy_tag]) cr ca los out nav =
              tag_loop E u (ts @ [dummy_tag]) (rel_path t) (abs_path t) (tag_lois u t)
                (out @ [NL] @ cr @ '':'' @ [NL]) nav"
        using False True Cons.prems(1) by simp
      also have "\<dots> = render_sections E ?T (out @ [NL] @ cr @ '':'' @ [NL]) nav"
        by (rule Cons.IH [OF rt rest])
      finally show ?thesis unfolding secs using True by simp
    next
      case nonempty: False
      obtain res nav1 where r: "render_tree E nav ca cr los = (res, nav1)"
        by (cases "render_tree E nav ca cr los")
      have "tag_loop E u ((t # ts) @ [dummy_tag]) cr ca los out nav =
              tag_loop E u (ts @ [dummy_tag]) (rel_path t) (abs_path t) (tag_lois u t)
                (out @ cr @ '':'' @ [NL] @ res) nav1"
        using False nonempty r by simp
      also have "\<dots> = render_sections E ?T (out @ cr @ '':'' @ [NL] @ res) nav1"
        by (rule Cons.IH [OF rt rest])
      finally show ?thesis unfolding secs using nonempty r by simp
    qed
  qed
qed

lemma tag_list_to_tree_sections:
  assumes "\<forall>t \<in> set tags. rel_path t \<noteq> []"
  shows "tag_list_to_tree E nav tags u =
           (case render_sections E (map (section_of u) (group_consecutive tags)) [] nav of
              (out, nav1) \<Rightarrow> (truncate_lines out, nav1))"
proof (cases tags)
  case Nil
  then show ?thesis
    by (simp add: tag_list_to_tree_def truncate_lines_def splitlines_def)
next
  case (Cons t ts)
  have rt: "rel_path t \<noteq> []" and rest: "\<forall>x \<in> set ts. rel_path x \<noteq> []"
    using assms Cons by simp_all
  have "tag_loop E u (tags @ [dummy_tag]) [] [] [] [] nav =
          tag_loop E u (ts @ [dummy_tag]) (rel_path t) (abs_path t) (tag_lois u t) [] nav"
    using Cons rt by simp
  also have "\<dots> = render_sections E
       (prepend_section (abs_path t) (rel_path t) (tag_lois u t)
          (map (section_of u) (group_consecutive ts))) [] nav"
    by (rule tag_loop_sections [OF rt rest])
  also have "\<dots> = render_sections E (map (section_of u) (group_consecutive tags)) [] nav"
    unfolding Cons by (simp only: sections_Cons)
  finally show ?thesis using Cons by (simp add: tag_list_to_tree_def)
qed

subsection \<open>Groups of a list sorted by path\<close>

lemma concat_group_consecutive:
  "concat (map (\<lambda>grp. fst grp # snd grp) (group_consecutive ts)) = ts"
proof (induction ts)
  case Nil
  then show ?case by simp
next
  case (Cons t ts)
  then show ?case
    by (cases "group_consecutive ts") (auto split: if_splits)
qed

lemma group_members:
  assumes "grp \<in> set (group_consecutive ts)"
  shows "set (fst grp # snd grp) \<subseteq> set ts"
proof -
  have "set (fst grp # snd grp) \<subseteq> set (concat (map (\<lambda>grp. fst grp # snd grp) (group_consecutive ts)))"
    using assms by auto
  then show ?thesis by (simp only: concat_group_consecutive)
qed

lemma group_same_file:
  "grp \<in> set (group_consecutive ts) \<Longrightarrow> x \<in> set (snd grp) \<Longrightarrow> rel_path x = rel_path (fst grp)"
proof (induction ts arbitrary: grp x)
  case Nil
  then show ?case by simp
next
  case (Cons t ts)
  show ?case
  proof (cases "group_consecutive ts")
    case Nil
    with Cons.prems show ?thesis by simp
  next
    case (Cons hg gs)
    obtain h g where hg: "hg = (h, g)" by (cases hg)
    have inh: "(h, g) \<in> set (group_consecutive ts)" using Cons hg by simp
    show ?thesis
    proof (cases "rel_path h = rel_path t")
      case True
      with Cons hg Cons.prems(1)
      have "grp = (t, h # g) \<or> grp \<in> set gs" by simp
      then show ?thesis
      proof
        assume g1: "grp = (t, h # g)"
        with Cons.prems(2) have "x = h \<or> x \<in> set g" by simp
        then show ?thesis
        proof
          assume "x = h" with True g1 show ?thesis by simp
        next
          assume "x \<in> set g"
          with Cons.IH [OF inh, of x] have "rel_path x = rel_path h" by simp
          with True g1 show ?thesis by simp
        qed
      next
        assume "grp \<in> set gs"
        with Cons have "grp \<in> set (group_consecutive ts)" by simp
        from Cons.IH [OF this Cons.prems(2)] show ?thesis .
      qed
    next
      case False
      with Cons hg Cons.prems(1)
      have "grp = (t, []) \<or> grp \<in> set (group_consecutive ts)" by auto
      then show ?thesis
      proof
        assume "grp = (t, [])" with Cons.prems(2) show ?thesis by simp
      next
        assume "grp \<in> set (group_consecutive ts)"
        from Cons.IH [OF this Cons.prems(2)] show ?thesis .
      qed
    qed
  qed
qed

lemma group_heads_ascending:
  "sorted (map rel_path ts) \<Longrightarrow>
   sorted_wrt (<) (map (\<lambda>grp. rel_path (fst grp)) (group_consecutive ts))"
proof (induction ts)
  case Nil
  then show ?case by simp
next
  case (Cons t ts)
  from Cons.prems have le: "\<forall>x \<in> set ts. rel_path t \<le> rel_path x" and srt: "sorted (map rel_path ts)"
    by simp_all
  note IH = Cons.IH [OF srt]
  show ?case
  proof (cases "group_consecutive ts")
    case Nil
    then show ?thesis by simp
  next
    case (Cons hg gs)
    obtain h g where hg: "hg = (h, g)" by (cases hg)
    have "(h, g) \<in> set (group_consecutive ts)" using Cons hg by simp
    from group_members [OF this] have "h \<in> set ts" by simp
    with le have th: "rel_path t \<le> rel_path h" by blast
    from IH Cons hg have hs: "\<forall>y \<in> set gs. rel_path h < rel_path (fst y)"
      and gsorted: "sorted_wrt (<) (map (\<lambda>grp. rel_path (fst grp)) gs)"
      by simp_all
    show ?thesis
    proof (cases "rel_path h = rel_path t")
      case True
      with Cons hg hs gsorted show ?thesis by simp
    next
      case False
      with th have lt: "rel_path t < rel_path h" by simp
      with hs have "\<forall>y \<in> set gs. rel_path t < rel_path (fst y)" by fastforce
      with Cons hg False lt hs gsorted show ?thesis by simp
    qed
  qed
qed

lemma group_is_whole_file:
  assumes "sorted (map rel_path ts)" and "grp \<in> set (group_consecutive ts)"
  shows "set (fst grp # snd grp) = {x \<in> set ts. rel_path x = rel_path (fst grp)}"
proof
  show "set (fst grp # snd grp) \<subseteq> {x \<in> set ts. rel_path x = rel_path (fst grp)}"
    using group_members [OF assms(2)] group_same_file [OF assms(2)] by auto
next
  show "{x \<in> set ts. rel_path x = rel_path (fst grp)} \<subseteq> set (fst grp # snd grp)"
  proof
    fix x assume "x \<in> {x \<in> set ts. rel_path x = rel_path (fst grp)}"
    then have x: "x \<in> set ts" and rx: "rel_path x = rel_path (fst grp)" by simp_all
    from x have "x \<in> set (concat (map (\<lambda>grp. fst grp # snd grp) (group_consecutive ts)))"
      by (simp only: concat_group_consecutive)
    then obtain grp' where g': "grp' \<in> set (group_consecutive ts)" and xin: "x \<in> set (fst grp' # snd grp')"
      by auto
    have "rel_path x = rel_path (fst grp')"
      using xin group_same_file [OF g'] by auto
    with rx have same: "rel_path (fst grp') = rel_path (fst grp)" by simp
    have "distinct (map (\<lambda>grp. rel_path (fst grp)) (group_consecutive ts))"
      using group_heads_ascending [OF assms(1)] by (simp add: strict_sorted_iff)
    then have "inj_on (\<lambda>grp. rel_path (fst grp)) (set (group_consecutive ts))"
      by (simp add: distinct_map)
    with g' assms(2) same have "grp' = grp" by (auto dest: inj_onD)
    with xin show "x \<in> set (fst grp # snd grp)" by simp
  qed
qed

lemma sorted_rel_paths:
  "sorted (map rel_path (sort_key tag_sort_key xs))"
proof -
  let ?ys = "sort_key tag_sort_key xs"
  have "sorted (map tag_sort_key ?ys)" by (rule sorted_sort_key)
  then have "sorted_wrt (\<lambda>x y. tag_sort_key x \<le> tag_sort_key y) ?ys"
    by (simp add: sorted_map)
  then have "sorted_wrt (\<lambda>x y. rel_path x \<le> rel_path y) ?ys"
    by (rule sorted_wrt_mono_rel [rotated])
       (auto simp: tag_sort_key_def less_eq_prod_def)
  then show ?thesis by (simp add: sorted_map)
qed


lemma concat_start_lines: "concat (map (tag_lois False) xs) = map start_line xs"
  by (induction xs) (simp_all add: tag_lois_def)


lemma definitions_tree_sections:
  assumes "get_parsed_tags E None None = Inr idx"
      and "\<forall>t \<in> set (collect_def_tags idx symbol p). rel_path t \<noteq> []"
  shows "get_definitions_tree E nav symbol p u =
           (case render_sections E
                   (map (section_of u)
                      (group_consecutive (sort_key tag_sort_key (collect_def_tags idx symbol p))))
                   [] nav of
              (out, nav1) \<Rightarrow> Inr (definitions_header symbol @ truncate_lines out @ [NL], nav1))"
proof -
  have "\<forall>t \<in> set (sort_key tag_sort_key (collect_def_tags idx symbol p)). rel_path t \<noteq> []"
    using assms(2) by simp
  from tag_list_to_tree_sections [OF this, of E nav u] assms(1)
  show ?thesis by (simp add: get_definitions_tree_def split: prod.splits)
qed

lemma references_tree_sections:
  assumes "get_parsed_tags E None None = Inr idx"
      and "\<forall>t \<in> set (collect_ref_tags idx symbol). rel_path t \<noteq> []"
  shows "get_references_tree E nav symbol =
           (case render_sections E
                   (map (section_of False)
                      (group_consecutive (sort_key tag_sort_key (collect_ref_tags idx symbol))))
                   [] nav of
              (out, nav1) \<Rightarrow> Inr (references_header symbol @ truncate_lines out @ [NL], nav1))"
proof -
  have "\<forall>t \<in> set (sort_key tag_sort_key (collect_ref_tags idx symbol)). rel_path t \<noteq> []"
    using assms(2) by simp
  from tag_list_to_tree_sections [OF this, of E nav False] assms(1)
  show ?thesis by (simp add: get_references_tree_def split: prod.splits)
qed

lemma shadow_index_built: "\<not> isl (get_parsed_tags shadow_env None None)"
  by code_simp

lemma shadow_index:
  "get_parsed_tags shadow_env None None = Inr (projr (get_parsed_tags shadow_env None None))"
  using shadow_index_built by (cases "get_parsed_tags shadow_env None None") auto

lemma shadow_def_paths:
  "\<forall>t \<in> set (collect_def_tags (projr (get_parsed_tags shadow_env None None)) ''TestSymbol'' None).
     rel_path t \<noteq> []"
  by code_simp

lemma shadow_ref_paths:
  "\<forall>t \<in> set (collect_ref_tags (projr (get_parsed_tags shadow_env None None)) ''TestSymbol'').
     rel_path t \<noteq> []"
  by code_simp

lemma shadow_def_sections:
  "map (section_of True)
     (group_consecutive (sort_key tag_sort_key
        (collect_def_tags (projr (get_parsed_tags shadow_env None None)) ''TestSymbol'' None)))
   = [(''/ws/test_def.py'', ''test_def.py'', [1, 2, 3]),
      (''/ws/test_ref.py'', ''test_ref.py'', [3, 4])]"
  by code_simp

lemma shadow_ref_sections:
  "map (section_of False)
     (group_consecutive (sort_key tag_sort_key
        (collect_ref_tags (projr (get_parsed_tags shadow_env None None)) ''TestSymbol'')))
   = [(''/ws/test_ref.py'', ''test_ref.py'', [1, 3])]"
  by code_simp

section \<open>Claims about failure handling and the header\<close>

text \<open>
  Claim C1. A symbol without any definition tag should give a "no definitions found"
  message, with close identifiers as suggestions. On the project of the integration test
  both queries for \<^verbatim>\<open>NonExistentSymbol\<close> return their bare header followed by an
  empty line: no such message and no suggestion is produced, although the index knows
  \<^verbatim>\<open>TestSymbol\<close> and \<^verbatim>\<open>test_method\<close>.
\<close>

theorem C1_unknown_symbol_gives_bare_header:
  "map_sum id fst (get_definitions_tree example_env new_navigator ''NonExistentSymbol'' None True)
     = Inr ([NL] @ ''Definition(s) of `NonExistentSymbol`:'' @ [NL, NL]) \<and>
   map_sum id fst (get_references_tree example_env new_navigator ''NonExistentSymbol'')
     = Inr ([NL] @ ''References to `NonExistentSymbol`:'' @ [NL, NL])"
  by code_simp

text \<open>
  Claim C2. A failing tracked-file listing should be caught by the two queries and turned
  into an advisory message. In the code the exception of the listing leaves
  \<^verbatim>\<open>get_parsed_tags\<close> and both queries unhandled: each query ends with that exception.
\<close>

theorem C2_listing_failure_propagates:
  "get_definitions_tree no_repo_env new_navigator ''TestSymbol'' None True
     = Inl (Raised ''No git repository found'') \<and>
   get_references_tree no_repo_env new_navigator ''TestSymbol''
     = Inl (Raised ''No git repository found'')"
  by (simp add: get_definitions_tree_def get_references_tree_def get_parsed_tags_def
      no_repo_env_def)

text \<open>
  Claim C10. Whenever the index is built, \<^verbatim>\<open>get_definitions_tree\<close> returns the header
  line of the symbol between two newlines, then the file sections, then a newline, and
  \<^verbatim>\<open>get_references_tree\<close> does the same with its own header, whatever the symbol and
  whether or not it has matches. For the empty symbol \<^verbatim>\<open>get_definitions_tree\<close> returns
  exactly the header and the final newline, and leaves the navigator as it was.
\<close>

theorem C10_header_always:
  assumes "\<not> isl (get_parsed_tags E None None)"
  shows "(\<exists>tree nav1. get_definitions_tree E nav symbol p u
            = Inr ([NL] @ ''Definition(s) of `'' @ symbol @ ''`:'' @ [NL] @ tree @ [NL], nav1)) \<and>
         (\<exists>tree nav1. get_references_tree E nav symbol
            = Inr ([NL] @ ''References to `'' @ symbol @ ''`:'' @ [NL] @ tree @ [NL], nav1)) \<and>
         get_definitions_tree E nav [] p u = Inr ([NL] @ ''Definition(s) of ``:'' @ [NL] @ [NL], nav)"
proof -
  from assms obtain idx where idx: "get_parsed_tags E None None = Inr idx"
    by (cases "get_parsed_tags E None None") auto
  have d: "\<exists>tree nav1. get_definitions_tree E nav symbol p u
            = Inr ([NL] @ ''Definition(s) of `'' @ symbol @ ''`:'' @ [NL] @ tree @ [NL], nav1)"
    by (cases "tag_list_to_tree E nav (sort_key tag_sort_key (collect_def_tags idx symbol p)) u")
       (simp add: get_definitions_tree_def idx definitions_header_def)
  have r: "\<exists>tree nav1. get_references_tree E nav symbol
            = Inr ([NL] @ ''References to `'' @ symbol @ ''`:'' @ [NL] @ tree @ [NL], nav1)"
    by (cases "tag_list_to_tree E nav (sort_key tag_sort_key (collect_ref_tags idx symbol)) False")
       (simp add: get_references_tree_def idx references_header_def)
  have e: "get_definitions_tree E nav [] p u = Inr ([NL] @ ''Definition(s) of ``:'' @ [NL] @ [NL], nav)"
    by (simp add: get_definitions_tree_def idx definitions_header_def
        collect_def_tags_empty_symbol tag_list_to_tree_Nil)
  from d r e show ?thesis by blast
qed

theorem C10_header_always_witness:
  "\<not> isl (get_parsed_tags example_env None None) \<and>
   (\<exists>tree nav1. get_definitions_tree example_env new_navigator ''TestSymbol'' None True
            = Inr ([NL] @ ''Definition(s) of `'' @ ''TestSymbol'' @ ''`:'' @ [NL] @ tree @ [NL], nav1)) \<and>
   (\<exists>tree nav1. get_references_tree example_env new_navigator ''TestSymbol''
            = Inr ([NL] @ ''References to `'' @ ''TestSymbol'' @ ''`:'' @ [NL] @ tree @ [NL], nav1)) \<and>
   get_definitions_tree example_env new_navigator [] None True
     = Inr ([NL] @ ''Definition(s) of ``:'' @ [NL] @ [NL], new_navigator)"
  using C10_header_always [OF example_index_built, of new_navigator "''TestSymbol''" None True]
    example_index_built by blast

text \<open>
  Claim C9, as stated, asks that a file whose extraction fails is skipped and the scan goes
  on. The scan of the broken project shows the opposite: the exception of the first file
  ends \<^verbatim>\<open>get_parsed_tags\<close>, and no index is built from the second file.
\<close>

theorem C9_extraction_failure_aborts_scan:
  "get_parsed_tags broken_file_env None None = Inl (Raised ''cannot parse'')"
  by (simp add: get_parsed_tags_def broken_file_env_def example_env_def)

text \<open>
  Claim C9, amended. \<^verbatim>\<open>get_parsed_tags\<close> has no recovery of its own: it raises exactly
  when the extractor raises for one of the tracked files, and when it returns, the tag
  dictionaries hold the definition and reference tags of every tracked file, each under
  the relative path of its file and its identifier.
\<close>

theorem C9_scan_has_no_recovery:
  assumes "get_all_absolute_tracked_files E depth = Inr files"
  shows "(isl (get_parsed_tags E depth None) \<longleftrightarrow>
            (\<exists>f \<in> set files. isl (get_tags_from_file E f (get_relative_path_str E f)))) \<and>
         (\<forall>idx. get_parsed_tags E depth None = Inr idx \<longrightarrow>
            (\<forall>r i. set (dict_get (identwrel2deftags_of idx) (r, i)) =
                     {t. \<exists>f \<in> set files. get_relative_path_str E f = r \<and> t \<in> file_tags E f \<and>
                           tag_kind t = DEF \<and> node_content t = i}) \<and>
            (\<forall>r i. set (dict_get (identwrel2reftags_of idx) (r, i)) =
                     {t. \<exists>f \<in> set files. get_relative_path_str E f = r \<and> t \<in> file_tags E f \<and>
                           tag_kind t = REF \<and> node_content t = i}))"
proof -
  note eq = get_parsed_tags_all [OF assms]
  have a: "isl (get_parsed_tags E depth None) \<longleftrightarrow>
            (\<exists>f \<in> set files. isl (get_tags_from_file E f (get_relative_path_str E f)))"
    by (simp add: eq scan_files_isl)
  have b: "set (dict_get (identwrel2deftags_of idx) (r, i)) =
             {t. \<exists>f \<in> set files. get_relative_path_str E f = r \<and> t \<in> file_tags E f \<and>
                   tag_kind t = DEF \<and> node_content t = i}"
    if "get_parsed_tags E depth None = Inr idx" for idx r i
    using scan_files_deftags [of E files empty_index idx r i] that by (simp add: eq)
  have c: "set (dict_get (identwrel2reftags_of idx) (r, i)) =
             {t. \<exists>f \<in> set files. get_relative_path_str E f = r \<and> t \<in> file_tags E f \<and>
                   tag_kind t = REF \<and> node_content t = i}"
    if "get_parsed_tags E depth None = Inr idx" for idx r i
    using scan_files_reftags [of E files empty_index idx r i] that by (simp add: eq)
  from a b c show ?thesis by blast
qed

theorem C9_scan_has_no_recovery_witness:
  "get_all_absolute_tracked_files example_env None = Inr [''/ws/test_def.py'', ''/ws/test_ref.py''] \<and>
   \<not> isl (get_parsed_tags example_env None None) \<and>
   get_all_absolute_tracked_files broken_file_env None = Inr [''/ws/test_def.py'', ''/ws/test_ref.py''] \<and>
   isl (get_parsed_tags broken_file_env None None)"
proof -
  have h1: "get_all_absolute_tracked_files example_env None = Inr [''/ws/test_def.py'', ''/ws/test_ref.py'']"
    by (simp add: example_env_def)
  have h2: "get_all_absolute_tracked_files broken_file_env None = Inr [''/ws/test_def.py'', ''/ws/test_ref.py'']"
    by (simp add: broken_file_env_def example_env_def)
  have n1: "\<not> isl (get_parsed_tags example_env None None)"
    using C9_scan_has_no_recovery [OF h1] by (simp add: example_env_def)
  have n2: "isl (get_parsed_tags broken_file_env None None)"
    using C9_scan_has_no_recovery [OF h2] by (simp add: broken_file_env_def example_env_def)
  from h1 h2 n1 n2 show ?thesis by blast
qed

section \<open>The path filter\<close>

text \<open>
  Claim C7. For every symbol and every path filter \<open>F\<close>, the tags that
  \<^verbatim>\<open>get_definitions_tree\<close> sorts and renders are exactly the definition tags of the
  symbol that come from tracked files whose relative path contains \<open>F\<close> as a contiguous
  substring; tags of files whose path does not contain \<open>F\<close> are left out. For the empty
  symbol the guard \<^verbatim>\<open>if symbol:\<close> skips the lookup (see C10), which agrees with this
  as long as no tag has an empty identifier.
\<close>

theorem C7_path_filter_is_substring_test:
  assumes "get_all_absolute_tracked_files E None = Inr files"
      and "get_parsed_tags E None None = Inr idx"
      and "symbol \<noteq> [] \<or> (\<forall>f \<in> set files. \<forall>t \<in> file_tags E f. node_content t \<noteq> [])"
  shows "set (sort_key tag_sort_key (collect_def_tags idx symbol (Some F))) =
           {t. \<exists>f \<in> set files. sublist F (get_relative_path_str E f) \<and> t \<in> file_tags E f \<and>
                 tag_kind t = DEF \<and> node_content t = symbol} \<and>
         get_definitions_tree E nav symbol (Some F) u =
           (case tag_list_to_tree E nav
                   (sort_key tag_sort_key (collect_def_tags idx symbol (Some F))) u of
              (tree, nav1) \<Rightarrow> Inr (definitions_header symbol @ tree @ [NL], nav1))"
proof -
  from assms(1,2) have sc: "scan_files E files empty_index = Inr idx"
    by (simp add: get_parsed_tags_all)
  have dr: "set (dict_get (ident2defrels_of idx) symbol) =
      {r. \<exists>f \<in> set files. get_relative_path_str E f = r \<and>
           (\<exists>t \<in> file_tags E f. tag_kind t = DEF \<and> node_content t = symbol)}"
    using scan_files_defrels [OF sc, of symbol] by simp
  have dt: "set (dict_get (identwrel2deftags_of idx) (r, symbol)) =
      {t. \<exists>f \<in> set files. get_relative_path_str E f = r \<and> t \<in> file_tags E f \<and>
           tag_kind t = DEF \<and> node_content t = symbol}" for r
    using scan_files_deftags [OF sc, of r symbol] by simp
  have "set (collect_def_tags idx symbol (Some F)) =
           {t. \<exists>f \<in> set files. sublist F (get_relative_path_str E f) \<and> t \<in> file_tags E f \<and>
                 tag_kind t = DEF \<and> node_content t = symbol}"
  proof (cases "symbol = []")
    case True
    with assms(3) have "\<forall>f \<in> set files. \<forall>t \<in> file_tags E f. node_content t \<noteq> []" by simp
    with True show ?thesis by (auto simp: collect_def_tags_empty_symbol)
  next
    case False
    then show ?thesis unfolding set_collect_def_tags dr dt by auto metis
  qed
  moreover have "get_definitions_tree E nav symbol (Some F) u =
           (case tag_list_to_tree E nav
                   (sort_key tag_sort_key (collect_def_tags idx symbol (Some F))) u of
              (tree, nav1) \<Rightarrow> Inr (definitions_header symbol @ tree @ [NL], nav1))"
    by (simp add: get_definitions_tree_def assms(2))
  ultimately show ?thesis by simp
qed

theorem C7_path_filter_is_substring_test_witness:
  "sort_key tag_sort_key
     (collect_def_tags (projr (get_parsed_tags shadow_env None None)) ''TestSymbol'' (Some ''t_def''))
     = [mk_tag ''test_def.py'' ''TestSymbol'' DEF 1 3] \<and>
   set (sort_key tag_sort_key
          (collect_def_tags (projr (get_parsed_tags shadow_env None None)) ''TestSymbol'' (Some ''t_def''))) =
     {t. \<exists>f \<in> set [''/ws/test_ref.py'', ''/ws/test_def.py''].
           sublist ''t_def'' (get_relative_path_str shadow_env f) \<and> t \<in> file_tags shadow_env f \<and>
           tag_kind t = DEF \<and> node_content t = ''TestSymbol''}"
proof -
  have h1: "get_all_absolute_tracked_files shadow_env None = Inr [''/ws/test_ref.py'', ''/ws/test_def.py'']"
    by (simp add: shadow_env_def)
  have h3: "''TestSymbol'' \<noteq> [] \<or>
            (\<forall>f \<in> set [''/ws/test_ref.py'', ''/ws/test_def.py''].
               \<forall>t \<in> file_tags shadow_env f. node_content t \<noteq> [])"
    by simp
  have v: "sort_key tag_sort_key
     (collect_def_tags (projr (get_parsed_tags shadow_env None None)) ''TestSymbol'' (Some ''t_def''))
     = [mk_tag ''test_def.py'' ''TestSymbol'' DEF 1 3]"
    by code_simp
  from C7_path_filter_is_substring_test [OF h1 shadow_index h3, of "''t_def''" new_navigator True] v
  show ?thesis by blast
qed

section \<open>Truncation of long lines\<close>

text \<open>
  Claim C8, as stated, bounds every line of the returned text by 150 characters. The
  header line carries the symbol and is appended after the truncation: for a symbol of 140
  characters the second line of the result has 160 characters.
\<close>

theorem C8_long_symbol_header_exceeds_150:
  "length (splitlines (fst (projr (get_definitions_tree example_env new_navigator
             (replicate 140 (CHR ''x'')) None True))) ! 1) = 160"
  by code_simp

text \<open>
  Claim C8, amended. The text returned by either query is the header line of the symbol
  (not truncated), the file sections and a final newline. Let \<open>out\<close> be the text that the
  loop of \<^verbatim>\<open>tag_list_to_tree\<close> has accumulated for the sorted tags before the
  truncation (it is empty when there is no tag). The lines of the file sections, in the
  sense of \<^verbatim>\<open>str.splitlines\<close>, are exactly the lines of \<open>out\<close>, each reduced to its
  first 150 characters: a line of at most 150 characters is kept as it is, a longer line
  is cut to 150 characters, no line is lost or added. In particular no line of the file
  sections has more than 150 characters.
\<close>

theorem C8_sections_truncated_header_not:
  "(\<forall>res nav1. get_definitions_tree E nav symbol p u = Inr (res, nav1) \<longrightarrow>
      (\<exists>idx out tree.
         get_parsed_tags E None None = Inr idx \<and>
         out = fst (tag_loop E u (sort_key tag_sort_key (collect_def_tags idx symbol p) @ [dummy_tag])
                      [] [] [] [] nav) \<and>
         res = [NL] @ ''Definition(s) of `'' @ symbol @ ''`:'' @ [NL] @ tree @ [NL] \<and>
         (\<forall>line \<in> set (splitlines tree). length line \<le> 150) \<and>
         (if out = [] then tree = []
          else splitlines (tree @ [NL]) = map (take 150) (splitlines out)))) \<and>
   (\<forall>res nav1. get_references_tree E nav symbol = Inr (res, nav1) \<longrightarrow>
      (\<exists>idx out tree.
         get_parsed_tags E None None = Inr idx \<and>
         out = fst (tag_loop E False (sort_key tag_sort_key (collect_ref_tags idx symbol) @ [dummy_tag])
                      [] [] [] [] nav) \<and>
         res = [NL] @ ''References to `'' @ symbol @ ''`:'' @ [NL] @ tree @ [NL] \<and>
         (\<forall>line \<in> set (splitlines tree). length line \<le> 150) \<and>
         (if out = [] then tree = []
          else splitlines (tree @ [NL]) = map (take 150) (splitlines out))))"
proof (intro conjI allI impI)
  fix res nav1
  assume "get_definitions_tree E nav symbol p u = Inr (res, nav1)"
  from definitions_tree_shape [OF this] obtain idx tree where
    idx: "get_parsed_tags E None None = Inr idx" and
    t: "tag_list_to_tree E nav (sort_key tag_sort_key (collect_def_tags idx symbol p)) u = (tree, nav1)"
    and r: "res = definitions_header symbol @ tree @ [NL]" by blast
  let ?out = "fst (tag_loop E u (sort_key tag_sort_key (collect_def_tags idx symbol p) @ [dummy_tag])
                      [] [] [] [] nav)"
  have b: "\<forall>line \<in> set (splitlines tree). length line \<le> 150"
    using tag_list_to_tree_lines [OF t] by blast
  have tr: "tree = truncate_lines ?out" by (rule tag_list_to_tree_truncates [OF t])
  have c: "if ?out = [] then tree = []
           else splitlines (tree @ [NL]) = map (take 150) (splitlines ?out)"
    using tr truncate_lines_exact [of ?out] by (simp add: truncate_lines_Nil)
  have r': "res = [NL] @ ''Definition(s) of `'' @ symbol @ ''`:'' @ [NL] @ tree @ [NL]"
    using r by (simp add: definitions_header_def)
  from idx r' b c
  show "\<exists>idx out tree.
         get_parsed_tags E None None = Inr idx \<and>
         out = fst (tag_loop E u (sort_key tag_sort_key (collect_def_tags idx symbol p) @ [dummy_tag])
                      [] [] [] [] nav) \<and>
         res = [NL] @ ''Definition(s) of `'' @ symbol @ ''`:'' @ [NL] @ tree @ [NL] \<and>
         (\<forall>line \<in> set (splitlines tree). length line \<le> 150) \<and>
         (if out = [] then tree = []
          else splitlines (tree @ [NL]) = map (take 150) (splitlines out))"
    by blast
next
  fix res nav1
  assume "get_references_tree E nav symbol = Inr (res, nav1)"
  from references_tree_shape [OF this] obtain idx tree where
    idx: "get_parsed_tags E None None = Inr idx" and
    t: "tag_list_to_tree E nav (sort_key tag_sort_key (collect_ref_tags idx symbol)) False = (tree, nav1)"
    and r: "res = references_header symbol @ tree @ [NL]" by blast
  let ?out = "fst (tag_loop E False (sort_key tag_sort_key (collect_ref_tags idx symbol) @ [dummy_tag])
                      [] [] [] [] nav)"
  have b: "\<forall>line \<in> set (splitlines tree). length line \<le> 150"
    using tag_list_to_tree_lines [OF t] by blast
  have tr: "tree = truncate_lines ?out" by (rule tag_list_to_tree_truncates [OF t])
  have c: "if ?out = [] then tree = []
           else splitlines (tree @ [NL]) = map (take 150) (splitlines ?out)"
    using tr truncate_lines_exact [of ?out] by (simp add: truncate_lines_Nil)
  have r': "res = [NL] @ ''References to `'' @ symbol @ ''`:'' @ [NL] @ tree @ [NL]"
    using r by (simp add: references_header_def)
  from idx r' b c
  show "\<exists>idx out tree.
         get_parsed_tags E None None = Inr idx \<and>
         out = fst (tag_loop E False (sort_key tag_sort_key (collect_ref_tags idx symbol) @ [dummy_tag])
                      [] [] [] [] nav) \<and>
         res = [NL] @ ''References to `'' @ symbol @ ''`:'' @ [NL] @ tree @ [NL] \<and>
         (\<forall>line \<in> set (splitlines tree). length line \<le> 150) \<and>
         (if out = [] then tree = []
          else splitlines (tree @ [NL]) = map (take 150) (splitlines out))"
    by blast
qed

theorem C8_sections_truncated_header_not_witness:
  "length minified_line = 500 \<and>
   (\<exists>tree. fst (projr (get_definitions_tree minified_env new_navigator ''TestSymbol'' None True))
            = [NL] @ ''Definition(s) of `'' @ ''TestSymbol'' @ ''`:'' @ [NL] @ tree @ [NL] \<and>
          splitlines (tree @ [NL])
            = [''test_def.py:'', ''class TestSymbol:  # '' @ replicate 129 (CHR ''x''),
               ''    def test_method(self):'', ''        pass''])"
proof
  show "length minified_line = 500" by (simp add: minified_line_def)
next
  let ?call = "get_definitions_tree minified_env new_navigator ''TestSymbol'' None True"
  have h: "?call = Inr (fst (projr ?call), snd (projr ?call))"
    using minified_returns by (cases ?call) auto
  from C8_sections_truncated_header_not [of minified_env new_navigator "''TestSymbol''" None True]
    h
  obtain idx out tree where
    idx: "get_parsed_tags minified_env None None = Inr idx" and
    out: "out = fst (tag_loop minified_env True
                  (sort_key tag_sort_key (collect_def_tags idx ''TestSymbol'' None) @ [dummy_tag])
                  [] [] [] [] new_navigator)" and
    r: "fst (projr ?call) = [NL] @ ''Definition(s) of `'' @ ''TestSymbol'' @ ''`:'' @ [NL] @ tree @ [NL]" and
    c: "if out = [] then tree = []
        else splitlines (tree @ [NL]) = map (take 150) (splitlines out)"
    by blast
  from idx have "idx = projr (get_parsed_tags minified_env None None)" by simp
  with out minified_out have o: "out = ''test_def.py:'' @ [NL] @ minified_line @ [NL] @
       ''    def test_method(self):'' @ [NL] @ ''        pass'' @ [NL]" by simp
  then have "out \<noteq> []" by simp
  with c have "splitlines (tree @ [NL]) = map (take 150) (splitlines out)" by simp
  with o minified_cut have "splitlines (tree @ [NL])
            = [''test_def.py:'', ''class TestSymbol:  # '' @ replicate 129 (CHR ''x''),
               ''    def test_method(self):'', ''        pass'']" by simp
  with r show "\<exists>tree. fst (projr ?call)
            = [NL] @ ''Definition(s) of `'' @ ''TestSymbol'' @ ''`:'' @ [NL] @ tree @ [NL] \<and>
          splitlines (tree @ [NL])
            = [''test_def.py:'', ''class TestSymbol:  # '' @ replicate 129 (CHR ''x''),
               ''    def test_method(self):'', ''        pass'']" by blast
qed

section \<open>The caches\<close>

text \<open>
  Claim C3. When \<^verbatim>\<open>get_definitions_tree\<close> has returned a text and a navigator state,
  the same query on that state returns the same text and leaves the state as it is,
  provided the index and the modification times are the same as before, whatever the
  files contain by then: no file is read (the read log is part of the state), no context
  is built and nothing is rendered again. Every excerpt of the second call is the entry
  that the first call left in the rendered-tree cache under the key of relative path,
  sorted lines of interest and modification time.
\<close>

theorem C3_second_query_served_from_cache:
  assumes "get_definitions_tree E nav symbol p u = Inr (res, nav1)"
      and "get_parsed_tags E2 None None = get_parsed_tags E None None"
      and "get_modified_time E2 = get_modified_time E"
  shows "get_definitions_tree E2 nav1 symbol p u = Inr (res, nav1)"
proof -
  from definitions_tree_shape [OF assms(1)] obtain idx tree where
    idx: "get_parsed_tags E None None = Inr idx" and
    t: "tag_list_to_tree E nav (sort_key tag_sort_key (collect_def_tags idx symbol p)) u
          = (tree, nav1)" and
    r: "res = definitions_header symbol @ tree @ [NL]" by blast
  from tag_list_to_tree_replay [OF t assms(3)]
  have "tag_list_to_tree E2 nav1 (sort_key tag_sort_key (collect_def_tags idx symbol p)) u
          = (tree, nav1)" .
  with idx assms(2) r show ?thesis by (simp add: get_definitions_tree_def)
qed

theorem C3_second_query_served_from_cache_witness:
  "get_definitions_tree example_env
     (snd (projr (get_definitions_tree example_env new_navigator ''TestSymbol'' None True)))
     ''TestSymbol'' None True
   = Inr (projr (get_definitions_tree example_env new_navigator ''TestSymbol'' None True))"
proof -
  let ?first = "get_definitions_tree example_env new_navigator ''TestSymbol'' None True"
  have h: "?first = Inr (fst (projr ?first), snd (projr ?first))"
    using example_definitions_returns by (cases ?first) auto
  from C3_second_query_served_from_cache [OF h refl refl] show ?thesis by simp
qed

text \<open>
  Claim C4, as stated, asks only that the edit changes the content and moves the
  modification time of the file strictly forward. \<^verbatim>\<open>render_tree\<close> compares the new time
  with the time stored in the context cache, not with the time the file had before the
  edit. The navigator \<open>rolled_back_nav\<close> has rendered \<^verbatim>\<open>test_def.py\<close> at time 3 and
  again at time 1; the file is then rewritten at time 2. The next render misses the
  rendered-tree cache, finds the context of time 3, which is not older than 2, and renders
  it: the text returned is the old one and the file is not read (the read log still holds
  the single read of the first render).
\<close>

theorem C4_rolled_back_time_gives_stale_text:
  "get_modified_time example_env ''/ws/test_def.py'' < get_modified_time edited_env ''/ws/test_def.py'' \<and>
   read_text example_env ''/ws/test_def.py'' \<noteq> read_text edited_env ''/ws/test_def.py'' \<and>
   read_log rolled_back_nav = [''/ws/test_def.py''] \<and>
   fst (render_tree edited_env rolled_back_nav ''/ws/test_def.py'' ''test_def.py'' [1, 2, 3])
     = ''class TestSymbol:'' @ [NL] @ ''    def test_method(self):'' @ [NL] @ ''        pass'' @ [NL] \<and>
   read_log (snd (render_tree edited_env rolled_back_nav ''/ws/test_def.py'' ''test_def.py'' [1, 2, 3]))
     = [''/ws/test_def.py''] \<and>
   file_context_cache
       (snd (render_tree edited_env rolled_back_nav ''/ws/test_def.py'' ''test_def.py'' [1, 2, 3]))
       ''test_def.py''
     = Some (''class TestSymbol:'' @ [NL] @ ''    def test_method(self):'' @ [NL] @ ''        pass'' @ [NL], 3)"
  by code_simp

text \<open>
  Claim C4, amended. Let all cache entries of a file be stored under modification times of
  at most \<open>M\<close>, and let the file now have a later modification time. Then \<^verbatim>\<open>render_tree\<close>
  reads the file (one more entry in the read log), builds a new context from the text it
  has read, and returns what the renderer makes of that context; the new context and the
  new excerpt are stored under the new modification time, and no entry stored before is
  returned. Afterwards all cache entries of the file are stored under times of at most the
  new one, so the same holds for the next edit at a later time.
\<close>

theorem C4_edited_file_is_reread:
  assumes "cache_bounded nav rel_file M"
      and "M < get_modified_time E abs_file"
  shows "render_tree E nav abs_file rel_file los =
           (let code = ensure_newline (case read_text E abs_file of None \<Rightarrow> [] | Some s \<Rightarrow> s);
                rendered = format_lois E (TreeContext E rel_file code) los
            in (snd rendered,
                nav\<lparr>read_log := read_log nav @ [abs_file],
                    file_context_cache := (file_context_cache nav)
                      (rel_file \<mapsto> (fst rendered, get_modified_time E abs_file)),
                    rendered_tree_cache := (rendered_tree_cache nav)
                      ((rel_file, sort los, get_modified_time E abs_file) \<mapsto> snd rendered)\<rparr>)) \<and>
         cache_bounded (snd (render_tree E nav abs_file rel_file los)) rel_file
           (get_modified_time E abs_file)"
proof
  show "render_tree E nav abs_file rel_file los =
           (let code = ensure_newline (case read_text E abs_file of None \<Rightarrow> [] | Some s \<Rightarrow> s);
                rendered = format_lois E (TreeContext E rel_file code) los
            in (snd rendered,
                nav\<lparr>read_log := read_log nav @ [abs_file],
                    file_context_cache := (file_context_cache nav)
                      (rel_file \<mapsto> (fst rendered, get_modified_time E abs_file)),
                    rendered_tree_cache := (rendered_tree_cache nav)
                      ((rel_file, sort los, get_modified_time E abs_file) \<mapsto> snd rendered)\<rparr>))"
  proof (rule render_tree_fresh)
    show "rendered_tree_cache nav (rel_file, sort los, get_modified_time E abs_file) = None"
    proof (rule ccontr)
      assume "rendered_tree_cache nav (rel_file, sort los, get_modified_time E abs_file) \<noteq> None"
      with assms(1) have "get_modified_time E abs_file \<le> M"
        unfolding cache_bounded_def by blast
      with assms(2) show False by simp
    qed
    show "\<forall>c m. file_context_cache nav rel_file = Some (c, m) \<longrightarrow> m < get_modified_time E abs_file"
    proof (intro allI impI)
      fix c m assume "file_context_cache nav rel_file = Some (c, m)"
      with assms(1) have "m \<le> M" unfolding cache_bounded_def by blast
      with assms(2) show "m < get_modified_time E abs_file" by simp
    qed
  qed
next
  from assms have "cache_bounded nav rel_file (get_modified_time E abs_file)"
    by (auto intro: cache_bounded_mono)
  then show "cache_bounded (snd (render_tree E nav abs_file rel_file los)) rel_file
           (get_modified_time E abs_file)"
    by (rule render_tree_cache_bounded) simp
qed

theorem C4_edited_file_is_reread_witness:
  "cache_bounded (snd (render_tree example_env new_navigator ''/ws/test_def.py'' ''test_def.py'' [1, 2, 3]))
     ''test_def.py'' (1::nat) \<and>
   (1::nat) < get_modified_time edited_env ''/ws/test_def.py'' \<and>
   \<not> cache_bounded rolled_back_nav ''test_def.py'' (1::nat) \<and>
   fst (render_tree edited_env
          (snd (render_tree example_env new_navigator ''/ws/test_def.py'' ''test_def.py'' [1, 2, 3]))
          ''/ws/test_def.py'' ''test_def.py'' [1, 2, 3])
     = ''class TestSymbol(Base):'' @ [NL] @ ''    x = 1'' @ [NL] @ ''    y = 2'' @ [NL] \<and>
   read_log (snd (render_tree edited_env
          (snd (render_tree example_env new_navigator ''/ws/test_def.py'' ''test_def.py'' [1, 2, 3]))
          ''/ws/test_def.py'' ''test_def.py'' [1, 2, 3]))
     = [''/ws/test_def.py'', ''/ws/test_def.py'']"
proof -
  let ?nav = "snd (render_tree example_env new_navigator ''/ws/test_def.py'' ''test_def.py'' [1, 2, 3])"
  have h1: "cache_bounded ?nav ''test_def.py'' (1::nat)"
    by (rule render_tree_cache_bounded [OF cache_bounded_new]) (simp add: example_env_def)
  have h2: "(1::nat) < get_modified_time edited_env ''/ws/test_def.py''"
    by (simp add: edited_env_def)
  have "file_context_cache rolled_back_nav ''test_def.py''
          = Some (''class TestSymbol:'' @ [NL] @ ''    def test_method(self):'' @ [NL] @ ''        pass'' @ [NL], 3)"
    by code_simp
  then have h3: "\<not> cache_bounded rolled_back_nav ''test_def.py'' (1::nat)"
    unfolding cache_bounded_def by simp
  have log: "read_log ?nav = [''/ws/test_def.py'']"
    by code_simp
  have new: "snd (format_lois edited_env (TreeContext edited_env ''test_def.py''
               (ensure_newline (case read_text edited_env ''/ws/test_def.py'' of
                                  None \<Rightarrow> [] | Some s \<Rightarrow> s))) [1, 2, 3])
             = ''class TestSymbol(Base):'' @ [NL] @ ''    x = 1'' @ [NL] @ ''    y = 2'' @ [NL]"
    by code_simp
  from C4_edited_file_is_reread [OF h1 h2, of "[1, 2, 3]", THEN conjunct1] h1 h2 h3 log new
  show ?thesis by (simp add: Let_def)
qed

section \<open>Ordering, grouping and lines of interest\<close>



text \<open>
  Claim C6. Under the same condition on the paths, the sections rendered by
  \<^verbatim>\<open>get_definitions_tree\<close> (with its default \<^verbatim>\<open>use_end_line=True\<close>) carry as lines
  of interest the union of the inclusive ranges from start line to end line of all
  definition tags of the file, and the sections rendered by \<^verbatim>\<open>get_references_tree\<close>
  carry exactly the start lines of the reference tags of the file, one line per tag.
\<close>

theorem C6_lines_of_interest:
  assumes "get_parsed_tags E None None = Inr idx"
      and "\<forall>t \<in> set (collect_def_tags idx symbol p). rel_path t \<noteq> []"
      and "\<forall>t \<in> set (collect_ref_tags idx symbol). rel_path t \<noteq> []"
  shows "let dts = sort_key tag_sort_key (collect_def_tags idx symbol p);
             rts = sort_key tag_sort_key (collect_ref_tags idx symbol)
         in get_definitions_tree E nav symbol p True =
              (case render_sections E (map (section_of True) (group_consecutive dts)) [] nav of
                 (out, nav1) \<Rightarrow> Inr (definitions_header symbol @ truncate_lines out @ [NL], nav1)) \<and>
            (\<forall>grp \<in> set (group_consecutive dts).
                set (snd (snd (section_of True grp))) =
                  (\<Union>x \<in> {x \<in> set dts. rel_path x = rel_path (fst grp)}.
                      {start_line x .. end_line x})) \<and>
            get_references_tree E nav symbol =
              (case render_sections E (map (section_of False) (group_consecutive rts)) [] nav of
                 (out, nav1) \<Rightarrow> Inr (references_header symbol @ truncate_lines out @ [NL], nav1)) \<and>
            (\<forall>grp \<in> set (group_consecutive rts).
                snd (snd (section_of False grp)) = map start_line (fst grp # snd grp) \<and>
                set (fst grp # snd grp) = {x \<in> set rts. rel_path x = rel_path (fst grp)})"
proof -
  let ?dts = "sort_key tag_sort_key (collect_def_tags idx symbol p)"
  let ?rts = "sort_key tag_sort_key (collect_ref_tags idx symbol)"
  note a = definitions_tree_sections [OF assms(1,2), of nav True]
  note c = references_tree_sections [OF assms(1,3), of nav]
  have b: "set (snd (snd (section_of True grp))) =
             (\<Union>x \<in> {x \<in> set ?dts. rel_path x = rel_path (fst grp)}. {start_line x .. end_line x})"
    if "grp \<in> set (group_consecutive ?dts)" for grp
  proof -
    have "set (snd (snd (section_of True grp))) =
            (\<Union>x \<in> set (fst grp # snd grp). {start_line x .. end_line x})"
      by (simp add: section_of_def tag_lois_def)
    also have "set (fst grp # snd grp) = {x \<in> set ?dts. rel_path x = rel_path (fst grp)}"
      by (rule group_is_whole_file [OF sorted_rel_paths that])
    finally show ?thesis .
  qed
  have d: "snd (snd (section_of False grp)) = map start_line (fst grp # snd grp) \<and>
           set (fst grp # snd grp) = {x \<in> set ?rts. rel_path x = rel_path (fst grp)}"
    if "grp \<in> set (group_consecutive ?rts)" for grp
  proof
    show "snd (snd (section_of False grp)) = map start_line (fst grp # snd grp)"
      by (simp only: section_of_def snd_conv concat_start_lines)
    show "set (fst grp # snd grp) = {x \<in> set ?rts. rel_path x = rel_path (fst grp)}"
      by (rule group_is_whole_file [OF sorted_rel_paths that])
  qed
  from a b c d show ?thesis unfolding Let_def by blast
qed

theorem C6_lines_of_interest_witness:
  "map (section_of True)
     (group_consecutive (sort_key tag_sort_key
        (collect_def_tags (projr (get_parsed_tags shadow_env None None)) ''TestSymbol'' None)))
   = [(''/ws/test_def.py'', ''test_def.py'', [1, 2, 3]),
      (''/ws/test_ref.py'', ''test_ref.py'', [3, 4])] \<and>
   map (section_of False)
     (group_consecutive (sort_key tag_sort_key
        (collect_ref_tags (projr (get_parsed_tags shadow_env None None)) ''TestSymbol'')))
   = [(''/ws/test_ref.py'', ''test_ref.py'', [1, 3])] \<and>
   get_definitions_tree shadow_env new_navigator ''TestSymbol'' None True =
     (case render_sections shadow_env
             [(''/ws/test_def.py'', ''test_def.py'', [1, 2, 3]),
              (''/ws/test_ref.py'', ''test_ref.py'', [3, 4])] [] new_navigator of
        (out, nav1) \<Rightarrow> Inr (definitions_header ''TestSymbol'' @ truncate_lines out @ [NL], nav1)) \<and>
   get_references_tree shadow_env new_navigator ''TestSymbol'' =
     (case render_sections shadow_env
             [(''/ws/test_ref.py'', ''test_ref.py'', [1, 3])] [] new_navigator of
        (out, nav1) \<Rightarrow> Inr (references_header ''TestSymbol'' @ truncate_lines out @ [NL], nav1))"
  using C6_lines_of_interest [OF shadow_index shadow_def_paths shadow_ref_paths, of new_navigator]
    shadow_def_sections shadow_ref_sections
  unfolding Let_def by metis

end
